theory Spec2Isabelle
  imports Complex_Main
begin

section \<open>Emergency room simulation: statistics aggregation\<close>

text \<open>
  The Python source computes with floats. Times and statistics are modelled as
  real numbers: \<open>/\<close> is exact division, \<open>math.pow(x, 2)\<close> is \<open>x\<^sup>2\<close> and
  \<open>math.sqrt\<close> is the real square root. Every operation of the source that can raise
  is a function into \<open>error + 'a\<close>, with \<open>Inl\<close> carrying the exception.
\<close>

datatype error = KeyError | ZeroDivisionError | ValueError | IndexError | OSError | TypeError

text \<open>One entry of \<open>stats["patients"]\<close>: the dict with keys "id", "type", "total_time".\<close>

record patient_record =
  rec_id :: int
  rec_type :: int
  total_time :: real

text \<open>Python's \<open>a / b\<close>: raises ZeroDivisionError when the divisor is zero.\<close>

definition py_div :: "real \<Rightarrow> real \<Rightarrow> error + real" where
  "py_div a b = (if b = 0 then Inl ZeroDivisionError else Inr (a / b))"

text \<open>\<open>math.sqrt\<close>: raises ValueError on a negative argument.\<close>

definition math_sqrt :: "real \<Rightarrow> error + real" where
  "math_sqrt x = (if x < 0 then Inl ValueError else Inr (sqrt x))"

text \<open>
  The dict \<open>types\<close> of \<open>calc_statistics\<close>, in insertion order. The statement
  \<open>types[k].append(v)\<close> raises KeyError when \<open>k\<close> is not a key.
\<close>

type_synonym types_dict = "(int \<times> real list) list"

fun dict_append :: "types_dict \<Rightarrow> int \<Rightarrow> real \<Rightarrow> error + types_dict" where
  "dict_append [] k v = Inl KeyError"
| "dict_append ((k', vs) # d) k v =
     (if k' = k then Inr ((k', vs @ [v]) # d)
      else (case dict_append d k v of
              Inl e \<Rightarrow> Inl e
            | Inr d' \<Rightarrow> Inr ((k', vs) # d')))"

text \<open>The loop \<open>for patient in stats["patients"]: types[patient["type"]].append(...)\<close>.\<close>

fun group_patients :: "types_dict \<Rightarrow> patient_record list \<Rightarrow> error + types_dict" where
  "group_patients d [] = Inr d"
| "group_patients d (p # ps) =
     (case dict_append d (rec_type p) (total_time p) of
        Inl e \<Rightarrow> Inl e
      | Inr d' \<Rightarrow> group_patients d' ps)"

definition initial_types :: types_dict where
  "initial_types = [(1, []), (2, []), (3, []), (4, [])]"

text \<open>One value of \<open>results["types"]\<close>: the dict with keys "count" and "avg_time".\<close>

record type_entry =
  count :: int
  avg_time :: real

text \<open>The body of the loop over \<open>types.items()\<close> for one group of times.\<close>

definition type_entry_of :: "real list \<Rightarrow> error + type_entry" where
  "type_entry_of ts =
     (if ts \<noteq> [] then
        (case py_div (sum_list ts) (real (length ts)) of
           Inl e \<Rightarrow> Inl e
         | Inr a \<Rightarrow> Inr \<lparr>count = int (length ts), avg_time = a\<rparr>)
      else Inr \<lparr>count = 0, avg_time = 0\<rparr>)"

fun type_entries :: "types_dict \<Rightarrow> error + (int \<times> type_entry) list" where
  "type_entries [] = Inr []"
| "type_entries ((ty, ts) # d) =
     (case type_entry_of ts of
        Inl e \<Rightarrow> Inl e
      | Inr en \<Rightarrow>
          (case type_entries d of
             Inl e \<Rightarrow> Inl e
           | Inr r \<Rightarrow> Inr ((ty, en) # r)))"

text \<open>Lines 173 to 187 of \<open>calc_statistics\<close>: grouping, then the per-type loop.\<close>

definition per_type_statistics :: "patient_record list \<Rightarrow> error + (int \<times> type_entry) list" where
  "per_type_statistics stats =
     (case group_patients initial_types stats of
        Inl e \<Rightarrow> Inl e
      | Inr groups \<Rightarrow> type_entries groups)"

text \<open>The dict returned by \<open>calc_statistics\<close>.\<close>

record results =
  overall_avg_time :: real
  standard_deviation :: real
  types :: "(int \<times> type_entry) list"

text \<open>
  \<open>calc_statistics\<close>; the argument is \<open>stats["patients"]\<close>. The \<open>print\<close> calls are
  left out: they change no value.
\<close>

definition calc_statistics :: "patient_record list \<Rightarrow> error + results" where
  "calc_statistics stats =
     (let total_patients = int (length stats) in
      case per_type_statistics stats of
        Inl e \<Rightarrow> Inl e
      | Inr tr \<Rightarrow>
          (let all_times = map total_time stats in
           case py_div (sum_list all_times) (real_of_int total_patients) of
             Inl e \<Rightarrow> Inl e
           | Inr overall \<Rightarrow>
               (let squared_differences = map (\<lambda>p. (total_time p - overall)\<^sup>2) stats in
                case py_div (sum_list squared_differences) (real_of_int (total_patients - 1)) of
                  Inl e \<Rightarrow> Inl e
                | Inr v \<Rightarrow>
                    (case math_sqrt v of
                       Inl e \<Rightarrow> Inl e
                     | Inr sd \<Rightarrow>
                         Inr \<lparr>overall_avg_time = overall,
                              standard_deviation = sd,
                              types = tr\<rparr>))))"

text \<open>A record collection whose types are all among the four keys of \<open>types\<close>.\<close>

definition valid_types :: "patient_record list \<Rightarrow> bool" where
  "valid_types stats = list_all (\<lambda>p. rec_type p \<in> {1, 2, 3, 4}) stats"

text \<open>The total times of the records of one type, in order.\<close>

definition times_of_type :: "int \<Rightarrow> patient_record list \<Rightarrow> real list" where
  "times_of_type ty stats = map total_time (filter (\<lambda>p. rec_type p = ty) stats)"

section \<open>Persistence: \<open>save_statistics\<close>\<close>

text \<open>
  \<open>f"{x:.2f}"\<close> on the real number \<open>x\<close>: the sign, the integer digits, a point and
  two decimals, rounded to the nearest hundredth with ties to even.
\<close>

definition digit_char :: "nat \<Rightarrow> char" where
  "digit_char d = ''0123456789'' ! (d mod 10)"

fun show_nat :: "nat \<Rightarrow> string" where
  "show_nat n = (if n < 10 then [digit_char n] else show_nat (n div 10) @ [digit_char (n mod 10)])"

definition round_half_even :: "real \<Rightarrow> int" where
  "round_half_even x =
     (let f = \<lfloor>x\<rfloor>; d = x - of_int f
      in if d < 1 / 2 then f
         else if 1 / 2 < d then f + 1
         else if even f then f else f + 1)"

definition format_2f :: "real \<Rightarrow> string" where
  "format_2f x =
     (let n = nat (round_half_even (\<bar>x\<bar> * 100));
          body = show_nat (n div 100) @ ''.'' @ [digit_char (n div 10), digit_char n]
      in if x < 0 then CHR ''-'' # body else body)"

text \<open>\<open>s.replace(".", ",")\<close>.\<close>

definition replace_point :: "string \<Rightarrow> string" where
  "replace_point s = map (\<lambda>c. if c = CHR ''.'' then CHR '','' else c) s"

text \<open>
  A cell handed to \<open>csv.writer.writerow\<close>: a string or an int. A file is the list of
  the rows written to it.
\<close>

datatype cell = Str string | Num int

type_synonym csv_row = "cell list"

text \<open>
  The file system as \<open>save_statistics\<close> sees it: the files that exist with their rows,
  and the paths that \<open>open\<close> can open for writing.
\<close>

record filesystem =
  files :: "string \<rightharpoonup> csv_row list"
  writable :: "string \<Rightarrow> bool"

definition header :: csv_row where
  "header =
     [Str ''Overall Average Time'', Str ''Standard Deviation'',
      Str ''Count Type 1'', Str ''Avg. Time Type 1'',
      Str ''Count Type 2'', Str ''Avg. Time Type 2'',
      Str ''Count Type 3'', Str ''Avg. Time Type 3'',
      Str ''Count Type 4'', Str ''Avg. Time Type 4'']"

text \<open>\<open>results["types"][k]\<close>: KeyError when the key is missing.\<close>

definition types_lookup :: "results \<Rightarrow> int \<Rightarrow> error + type_entry" where
  "types_lookup res k = (case map_of (types res) k of None \<Rightarrow> Inl KeyError | Some en \<Rightarrow> Inr en)"

text \<open>The two cells of one type: its count and its formatted average.\<close>

definition type_cells :: "results \<Rightarrow> int \<Rightarrow> error + csv_row" where
  "type_cells res k =
     (case types_lookup res k of
        Inl e \<Rightarrow> Inl e
      | Inr en \<Rightarrow> Inr [Num (count en), Str (replace_point (format_2f (avg_time en)))])"

text \<open>The list \<open>row\<close> of \<open>save_statistics\<close>, built left to right.\<close>

definition build_row :: "results \<Rightarrow> error + csv_row" where
  "build_row res =
     (case type_cells res 1 of Inl e \<Rightarrow> Inl e | Inr c1 \<Rightarrow>
      case type_cells res 2 of Inl e \<Rightarrow> Inl e | Inr c2 \<Rightarrow>
      case type_cells res 3 of Inl e \<Rightarrow> Inl e | Inr c3 \<Rightarrow>
      case type_cells res 4 of Inl e \<Rightarrow> Inl e | Inr c4 \<Rightarrow>
        Inr ([Str (replace_point (format_2f (overall_avg_time res))),
              Str (replace_point (format_2f (standard_deviation res)))]
             @ c1 @ c2 @ c3 @ c4))"

text \<open>
  \<open>save_statistics\<close>. The file is opened in mode "a" when it exists and in mode "w"
  otherwise; the header is written before the row is built, so a KeyError in the row
  leaves a new file with its header only.
\<close>

definition save_statistics :: "results \<Rightarrow> string \<Rightarrow> filesystem \<Rightarrow> (error + unit) \<times> filesystem" where
  "save_statistics res filename fs =
     (let file_exists = (files fs filename \<noteq> None) in
      if \<not> writable fs filename then (Inl OSError, fs)
      else
        (let opened = (case files fs filename of None \<Rightarrow> [] | Some rows \<Rightarrow> rows);
             with_header = (if \<not> file_exists then opened @ [header] else opened)
         in case build_row res of
              Inl e \<Rightarrow> (Inl e, fs\<lparr>files := (files fs)(filename \<mapsto> with_header)\<rparr>)
            | Inr row \<Rightarrow> (Inr (), fs\<lparr>files := (files fs)(filename \<mapsto> with_header @ [row])\<rparr>)))"

definition default_filename :: string where
  "default_filename = ''results/Task1.csv''"

text \<open>
  A formatted value with a comma as decimal separator: an optional minus sign, at least
  one digit, a comma, two digits, and no point.
\<close>

definition is_digit :: "char \<Rightarrow> bool" where
  "is_digit c = (c \<in> set ''0123456789'')"

definition comma_decimal :: "string \<Rightarrow> bool" where
  "comma_decimal s =
     (\<exists>sgn ds d1 d2. s = sgn @ ds @ '','' @ [d1, d2] \<and> (sgn = [] \<or> sgn = ''-'') \<and>
        ds \<noteq> [] \<and> list_all is_digit ds \<and> is_digit d1 \<and> is_digit d2)"

section \<open>The random module\<close>

text \<open>
  The Python standard library's \<open>random\<close> module is a parameter of the model. Its
  global generator has a state of type \<open>'g\<close>; \<open>random.seed(a)\<close> replaces the state by
  one that depends on \<open>a\<close> only, and every draw returns a value and the next state.
  The parameters of \<open>random.triangular\<close> are, in this order, \<open>low\<close>, \<open>high\<close> and
  \<open>mode\<close>.
\<close>

record 'g random_module =
  rnd_seed :: "int \<Rightarrow> 'g"
  rnd_random :: "'g \<Rightarrow> real \<times> 'g"
  rnd_triangular :: "real \<Rightarrow> real \<Rightarrow> real \<Rightarrow> 'g \<Rightarrow> real \<times> 'g"
  rnd_expovariate :: "real \<Rightarrow> 'g \<Rightarrow> real \<times> 'g"
  rnd_choices :: "int list \<Rightarrow> int list \<Rightarrow> nat \<Rightarrow> 'g \<Rightarrow> int list \<times> 'g"

text \<open>
  \<open>random.triangular(low, high, mode)\<close> as the standard library defines it. It draws
  one number \<open>u\<close> with \<open>random()\<close>. The quotient \<open>(mode - low) / (high - low)\<close> is
  computed under a \<open>try\<close>: when the division raises ZeroDivisionError the result is
  \<open>low\<close>. When \<open>u\<close> is above the quotient, \<open>u\<close> and the quotient are replaced by
  their complements and the limits change places. The square root is \<open>math.sqrt\<close>.
\<close>

definition random_triangular :: "'g random_module \<Rightarrow> real \<Rightarrow> real \<Rightarrow> real \<Rightarrow> 'g \<Rightarrow> (error + real) \<times> 'g" where
  "random_triangular rm low high mode g =
     (case rnd_random rm g of
        (u, g') \<Rightarrow>
          (case py_div (mode - low) (high - low) of
             Inl e \<Rightarrow> (Inr low, g')
           | Inr c \<Rightarrow>
               (if u > c then
                  (case math_sqrt ((1 - u) * (1 - c)) of
                     Inl e \<Rightarrow> (Inl e, g')
                   | Inr r \<Rightarrow> (Inr (high + (low - high) * r), g'))
                else
                  (case math_sqrt (u * c) of
                     Inl e \<Rightarrow> (Inl e, g')
                   | Inr r \<Rightarrow> (Inr (low + (high - low) * r), g')))))"

text \<open>
  A random module whose \<open>triangular\<close> is the library's: every call in which the
  library's function returns a number returns this number and leaves the state that
  the draw of \<open>u\<close> left.
\<close>

definition library_triangular :: "'g random_module \<Rightarrow> bool" where
  "library_triangular rm =
     (\<forall>low high mode g x g'. random_triangular rm low high mode g = (Inr x, g') \<longrightarrow>
        rnd_triangular rm low high mode g = (x, g'))"

text \<open>
  \<open>triangular_dist\<close> names its parameters minimum, mode and maximum, and passes them
  on by position, in the order it received them.
\<close>

definition triangular_dist :: "'g random_module \<Rightarrow> real \<Rightarrow> real \<Rightarrow> real \<Rightarrow> 'g \<Rightarrow> real \<times> 'g" where
  "triangular_dist rm minimum mode maximum g = rnd_triangular rm minimum mode maximum g"

text \<open>
  \<open>get_cw_time\<close>. Resources are compared with \<open>==\<close>, which on \<open>simpy.Resource\<close> is
  object identity; \<open>'r\<close> is the type of resource identities.
\<close>

definition get_cw_time :: "'g random_module \<Rightarrow> 'r \<Rightarrow> 'r \<Rightarrow> 'r \<Rightarrow> 'g \<Rightarrow> real \<times> 'g" where
  "get_cw_time rm cw1 cw2 casualty_ward g =
     (if casualty_ward = cw1 then triangular_dist rm 1.5 3.2 5.0 g
      else if casualty_ward = cw2 then triangular_dist rm 2.8 4.1 6.3 g
      else (0, g))"

section \<open>Processes\<close>

text \<open>The five resources created by \<open>run_simulation\<close>, with their capacities.\<close>

datatype resource = Registration | CW1 | CW2 | X_ray | Plaster

fun capacity :: "resource \<Rightarrow> nat" where
  "capacity Registration = 1"
| "capacity CW1 = 2"
| "capacity CW2 = 2"
| "capacity X_ray = 2"
| "capacity Plaster = 1"

text \<open>
  A process is a Python generator. Between two \<open>yield\<close>s it runs without interruption;
  what it does to the environment in that time is the list of commands it issues, in
  order. A step ends with a request or a timeout (the event it yields), with \<open>Return\<close>
  (the generator is exhausted) or with \<open>Raise\<close> (an exception leaves the generator).
\<close>

datatype command =
    Request resource
  | Release resource
  | Timeout real
  | Record_stats patient_record
  | Spawn nat int
  | Return
  | Raise error

text \<open>
  The suspension points of \<open>patient\<close>: one for each \<open>yield\<close>, named after what the
  process waits for. From line 56 on the local variable \<open>casualty_ward\<close> is part of
  the continuation.
\<close>

datatype patient_cont =
    At_start
  | Reg_requested
  | Reg_held
  | Doctors_wait resource
  | Ward_requested resource
  | Ward_held resource
  | T1_xray_requested resource
  | T1_xray_held resource
  | T1_ward_requested resource
  | T1_ward_held resource
  | T2_plaster_requested
  | T2_plaster_held
  | T3_xray1_requested resource
  | T3_xray1_held resource
  | T3_plaster_requested resource
  | T3_plaster_held resource
  | T3_xray2_requested resource
  | T3_xray2_held resource
  | T3_ward_requested resource
  | T3_ward_held resource
  | Finished

record patient_proc =
  patient_id :: int
  patient_type :: int
  arrival_time :: real
  cont :: patient_cont

text \<open>
  \<open>yield env.timeout(delay)\<close>: \<open>env.timeout\<close> raises ValueError on a negative delay.
  Inside a \<open>with\<close> block the exception releases the resource held (\<open>cleanup\<close>) on its
  way out.
\<close>

definition env_timeout :: "real \<Rightarrow> command list \<Rightarrow> patient_cont \<Rightarrow> command list \<times> patient_cont" where
  "env_timeout delay cleanup next_cont =
     (if delay < 0 then (cleanup @ [Raise ValueError], Finished)
      else ([Timeout delay], next_cont))"

text \<open>A service time is drawn, then the process holds resource \<open>r\<close> for that long.\<close>

definition hold :: "real \<times> 'g \<Rightarrow> resource \<Rightarrow> patient_cont \<Rightarrow> (command list \<times> patient_cont) \<times> 'g" where
  "hold sample r next_cont =
     (case sample of (delay, g) \<Rightarrow> (env_timeout delay [Release r] next_cont, g))"

text \<open>Lines 110 to 114: the record appended to \<open>stats["patients"]\<close>, then the end.\<close>

definition depart :: "real \<Rightarrow> patient_proc \<Rightarrow> command list" where
  "depart t p =
     [Record_stats \<lparr>rec_id = patient_id p, rec_type = patient_type p,
                    total_time = t - arrival_time p\<rparr>,
      Return]"

text \<open>
  \<open>patient\<close>, resumed at time \<open>t\<close> (\<open>env.now\<close>) with the generator state \<open>g\<close>: the
  commands up to the next \<open>yield\<close> and the continuation there.
\<close>

definition patient_step ::
  "'g random_module \<Rightarrow> real \<Rightarrow> patient_proc \<Rightarrow> 'g \<Rightarrow> (command list \<times> patient_cont) \<times> 'g" where
  "patient_step rm t p g =
     (case cont p of
        At_start \<Rightarrow> (([Request Registration], Reg_requested), g)
      | Reg_requested \<Rightarrow> hold (triangular_dist rm 0.2 0.5 1.0 g) Registration Reg_held
      | Reg_held \<Rightarrow>
          (case rnd_random rm g of
             (u, g') \<Rightarrow>
               (let casualty_ward = (if u < 0.6 then CW1 else CW2) in
                if t < 30 then
                  (case env_timeout (30 - t) [] (Doctors_wait casualty_ward) of
                     (cmds, c) \<Rightarrow> ((Release Registration # cmds, c), g'))
                else (([Release Registration, Request casualty_ward],
                       Ward_requested casualty_ward), g')))
      | Doctors_wait cw \<Rightarrow> (([Request cw], Ward_requested cw), g)
      | Ward_requested cw \<Rightarrow> hold (get_cw_time rm CW1 CW2 cw g) cw (Ward_held cw)
      | Ward_held cw \<Rightarrow>
          (if patient_type p = 1 then (([Release cw, Request X_ray], T1_xray_requested cw), g)
           else if patient_type p = 2 then (([Release cw, Request Plaster], T2_plaster_requested), g)
           else if patient_type p = 3 then (([Release cw, Request X_ray], T3_xray1_requested cw), g)
           else ((Release cw # depart t p, Finished), g))
      | T1_xray_requested cw \<Rightarrow> hold (triangular_dist rm 2.0 2.8 4.1 g) X_ray (T1_xray_held cw)
      | T1_xray_held cw \<Rightarrow> (([Release X_ray, Request cw], T1_ward_requested cw), g)
      | T1_ward_requested cw \<Rightarrow> hold (get_cw_time rm CW1 CW2 cw g) cw (T1_ward_held cw)
      | T1_ward_held cw \<Rightarrow> ((Release cw # depart t p, Finished), g)
      | T2_plaster_requested \<Rightarrow> hold (triangular_dist rm 3.0 3.8 4.7 g) Plaster T2_plaster_held
      | T2_plaster_held \<Rightarrow> ((Release Plaster # depart t p, Finished), g)
      | T3_xray1_requested cw \<Rightarrow> hold (triangular_dist rm 2.0 2.8 4.1 g) X_ray (T3_xray1_held cw)
      | T3_xray1_held cw \<Rightarrow> (([Release X_ray, Request Plaster], T3_plaster_requested cw), g)
      | T3_plaster_requested cw \<Rightarrow> hold (triangular_dist rm 3.0 3.8 4.7 g) Plaster (T3_plaster_held cw)
      | T3_plaster_held cw \<Rightarrow> (([Release Plaster, Request X_ray], T3_xray2_requested cw), g)
      | T3_xray2_requested cw \<Rightarrow> hold (triangular_dist rm 2.0 2.8 4.1 g) X_ray (T3_xray2_held cw)
      | T3_xray2_held cw \<Rightarrow> (([Release X_ray, Request cw], T3_ward_requested cw), g)
      | T3_ward_requested cw \<Rightarrow> hold (get_cw_time rm CW1 CW2 cw g) cw (T3_ward_held cw)
      | T3_ward_held cw \<Rightarrow> ((Release cw # depart t p, Finished), g)
      | Finished \<Rightarrow> (([], Finished), g))"

text \<open>
  The whole step of a patient process: line 47 stores the arrival time when the process
  starts, and the continuation is stored for the next resumption.
\<close>

definition patient_resume ::
  "'g random_module \<Rightarrow> real \<Rightarrow> patient_proc \<Rightarrow> 'g \<Rightarrow> (command list \<times> patient_proc) \<times> 'g" where
  "patient_resume rm t p g =
     (let p0 = (if cont p = At_start then p\<lparr>arrival_time := t\<rparr> else p) in
      case patient_step rm t p0 g of
        ((cmds, c), g') \<Rightarrow> ((cmds, p0\<lparr>cont := c\<rparr>), g'))"

text \<open>
  \<open>generate_patients\<close>: its suspension point is the \<open>yield\<close> of line 123, in iteration
  \<open>i\<close> of the loop over \<open>range(num_patients)\<close>.
\<close>

datatype gen_cont = G_start | G_waiting nat | G_finished

text \<open>Lines 122 and 123 of iteration \<open>i\<close>, after the commands \<open>issued\<close>.\<close>

definition next_arrival ::
  "'g random_module \<Rightarrow> nat \<Rightarrow> command list \<Rightarrow> 'g \<Rightarrow> (command list \<times> gen_cont) \<times> 'g" where
  "next_arrival rm i issued g =
     (case rnd_expovariate rm (1 / 0.3) g of
        (interarrival_time, g') \<Rightarrow>
          if interarrival_time < 0 then ((issued @ [Raise ValueError], G_finished), g')
          else ((issued @ [Timeout interarrival_time], G_waiting i), g'))"

definition generate_patients ::
  "'g random_module \<Rightarrow> int \<Rightarrow> gen_cont \<Rightarrow> 'g \<Rightarrow> (command list \<times> gen_cont) \<times> 'g" where
  "generate_patients rm num gc g =
     (case gc of
        G_start \<Rightarrow> if 0 < num then next_arrival rm 0 [] g else (([Return], G_finished), g)
      | G_waiting i \<Rightarrow>
          (case rnd_choices rm [1, 2, 3, 4] [35, 20, 5, 40] 1 g of
             (drawn, g') \<Rightarrow>
               (case drawn of
                  [] \<Rightarrow> (([Raise IndexError], G_finished), g')
                | ptype # _ \<Rightarrow>
                    if int (Suc i) < num then next_arrival rm (Suc i) [Spawn i ptype] g'
                    else (([Spawn i ptype, Return], G_finished), g')))
      | G_finished \<Rightarrow> (([], G_finished), g))"

section \<open>The event loop\<close>

text \<open>
  The part of SimPy that the source uses. The environment keeps a queue of scheduled
  events ordered by time, then priority (0 for the start of a process, 1 otherwise),
  then a running event number. A resource keeps the list of its users and the queue of
  waiting requests; releasing schedules an event that, when it is processed, grants the
  first waiting request if the capacity allows.
\<close>

datatype proc = Generator | Patient nat

datatype event = Resume proc | Released resource | Ended | Failed error

type_synonym entry = "real \<times> nat \<times> nat \<times> event"

record 'g environment =
  now :: real
  queue :: "entry list"
  eid :: nat
  users :: "resource \<Rightarrow> proc list"
  put_queue :: "resource \<Rightarrow> proc list"
  patients :: "patient_proc list"
  generator :: gen_cont
  num_patients :: int
  rng :: 'g
  stats_patients :: "patient_record list"

definition URGENT :: nat where "URGENT = 0"

definition NORMAL :: nat where "NORMAL = 1"

fun key_less :: "entry \<Rightarrow> entry \<Rightarrow> bool" where
  "key_less (t1, p1, i1, e1) (t2, p2, i2, e2) =
     (t1 < t2 \<or> (t1 = t2 \<and> (p1 < p2 \<or> (p1 = p2 \<and> i1 < i2))))"

fun enqueue :: "entry \<Rightarrow> entry list \<Rightarrow> entry list" where
  "enqueue e [] = [e]"
| "enqueue e (x # xs) = (if key_less e x then e # x # xs else x # enqueue e xs)"

definition schedule :: "nat \<Rightarrow> real \<Rightarrow> event \<Rightarrow> 'g environment \<Rightarrow> 'g environment" where
  "schedule priority delay ev s =
     s\<lparr>queue := enqueue (now s + delay, priority, eid s, ev) (queue s), eid := Suc (eid s)\<rparr>"

text \<open>
  \<open>Resource._trigger_put\<close>: the first waiting request becomes a user when there is room,
  and its event is scheduled.
\<close>

definition trigger_put :: "resource \<Rightarrow> 'g environment \<Rightarrow> 'g environment" where
  "trigger_put r s =
     (case put_queue s r of
        [] \<Rightarrow> s
      | pr # waiting \<Rightarrow>
          if length (users s r) < capacity r then
            schedule NORMAL 0 (Resume pr)
              (s\<lparr>users := (users s)(r := users s r @ [pr]),
                 put_queue := (put_queue s)(r := waiting)\<rparr>)
          else s)"

text \<open>The effect of one command of process \<open>pr\<close>.\<close>

fun exec_command :: "proc \<Rightarrow> command \<Rightarrow> 'g environment \<Rightarrow> 'g environment" where
  "exec_command pr (Request r) s =
     trigger_put r (s\<lparr>put_queue := (put_queue s)(r := put_queue s r @ [pr])\<rparr>)"
| "exec_command pr (Release r) s =
     schedule NORMAL 0 (Released r) (s\<lparr>users := (users s)(r := remove1 pr (users s r))\<rparr>)"
| "exec_command pr (Timeout delay) s = schedule NORMAL delay (Resume pr) s"
| "exec_command pr (Record_stats rec) s = s\<lparr>stats_patients := stats_patients s @ [rec]\<rparr>"
| "exec_command pr (Spawn i ty) s =
     schedule URGENT 0 (Resume (Patient (length (patients s))))
       (s\<lparr>patients := patients s @
            [\<lparr>patient_id = int i, patient_type = ty, arrival_time = 0, cont = At_start\<rparr>]\<rparr>)"
| "exec_command pr Return s = schedule NORMAL 0 Ended s"
| "exec_command pr (Raise e) s = schedule NORMAL 0 (Failed e) s"

fun exec_commands :: "proc \<Rightarrow> command list \<Rightarrow> 'g environment \<Rightarrow> 'g environment" where
  "exec_commands pr [] s = s"
| "exec_commands pr (c # cs) s = exec_commands pr cs (exec_command pr c s)"

text \<open>\<open>Process._resume\<close>: the process runs to its next \<open>yield\<close>.\<close>

definition resume :: "'g random_module \<Rightarrow> proc \<Rightarrow> 'g environment \<Rightarrow> 'g environment" where
  "resume rm pr s =
     (case pr of
        Generator \<Rightarrow>
          (case generate_patients rm (num_patients s) (generator s) (rng s) of
             ((cmds, gc), g) \<Rightarrow> exec_commands Generator cmds (s\<lparr>generator := gc, rng := g\<rparr>))
      | Patient k \<Rightarrow>
          if k < length (patients s) then
            (case patient_resume rm (now s) (patients s ! k) (rng s) of
               ((cmds, p'), g) \<Rightarrow>
                 exec_commands (Patient k) cmds (s\<lparr>patients := (patients s)[k := p'], rng := g\<rparr>))
          else s)"

text \<open>The callbacks of an event; a failed process event raises its exception.\<close>

definition fire :: "'g random_module \<Rightarrow> event \<Rightarrow> 'g environment \<Rightarrow> error + 'g environment" where
  "fire rm ev s =
     (case ev of
        Resume pr \<Rightarrow> Inr (resume rm pr s)
      | Released r \<Rightarrow> Inr (trigger_put r s)
      | Ended \<Rightarrow> Inr s
      | Failed e \<Rightarrow> Inl e)"

text \<open>
  The weight of a state, which every processed event makes smaller: the scheduled
  events, the waiting requests, and the steps the processes still have ahead.
\<close>

fun rank :: "patient_cont \<Rightarrow> nat" where
  "rank At_start = 20"
| "rank Reg_requested = 19"
| "rank Reg_held = 18"
| "rank (Doctors_wait cw) = 17"
| "rank (Ward_requested cw) = 16"
| "rank (Ward_held cw) = 15"
| "rank (T1_xray_requested cw) = 14"
| "rank (T1_xray_held cw) = 13"
| "rank (T1_ward_requested cw) = 12"
| "rank (T1_ward_held cw) = 11"
| "rank T2_plaster_requested = 10"
| "rank T2_plaster_held = 9"
| "rank (T3_xray1_requested cw) = 8"
| "rank (T3_xray1_held cw) = 7"
| "rank (T3_plaster_requested cw) = 6"
| "rank (T3_plaster_held cw) = 5"
| "rank (T3_xray2_requested cw) = 4"
| "rank (T3_xray2_held cw) = 3"
| "rank (T3_ward_requested cw) = 2"
| "rank (T3_ward_held cw) = 1"
| "rank Finished = 0"

fun gen_weight :: "int \<Rightarrow> gen_cont \<Rightarrow> nat" where
  "gen_weight num G_start = 64 * nat num + 66"
| "gen_weight num (G_waiting i) = 64 * (nat num - i) + 64"
| "gen_weight num G_finished = 0"

fun cost :: "command \<Rightarrow> nat" where
  "cost (Request r) = 2"
| "cost (Release r) = 1"
| "cost (Timeout d) = 1"
| "cost (Record_stats rec) = 0"
| "cost (Spawn i ty) = 61"
| "cost Return = 1"
| "cost (Raise e) = 1"

definition waiting :: "'g environment \<Rightarrow> nat" where
  "waiting s = length (put_queue s Registration) + length (put_queue s CW1)
     + length (put_queue s CW2) + length (put_queue s X_ray) + length (put_queue s Plaster)"

definition weight :: "'g environment \<Rightarrow> nat" where
  "weight s = length (queue s) + 2 * waiting s
     + 3 * sum_list (map (\<lambda>p. rank (cont p)) (patients s))
     + gen_weight (num_patients s) (generator s)"

text \<open>\<open>env.run()\<close>: events are processed until the queue is empty or one raises.\<close>

function env_run :: "'g random_module \<Rightarrow> 'g environment \<Rightarrow> (error + unit) \<times> 'g environment" where
  "env_run rm s =
     (case queue s of
        [] \<Rightarrow> (Inr (), s)
      | (t, priority, i, ev) # q \<Rightarrow>
          (case fire rm ev (s\<lparr>now := t, queue := q\<rparr>) of
             Inl e \<Rightarrow> (Inl e, s\<lparr>now := t, queue := q\<rparr>)
           | Inr s' \<Rightarrow> env_run rm s'))"
  by pat_completeness auto

section \<open>\<open>run_simulation\<close> and the driver\<close>

text \<open>
  What outlives a call of \<open>run_simulation\<close>: the state of the global random generator
  and the file system.
\<close>

record 'g world =
  global_rng :: 'g
  disk :: filesystem

definition initial_environment :: "int \<Rightarrow> 'g \<Rightarrow> 'g environment" where
  "initial_environment num g =
     \<lparr>now = 0, queue = [], eid = 0, users = (\<lambda>r. []), put_queue = (\<lambda>r. []),
      patients = [], generator = G_start, num_patients = num, rng = g, stats_patients = []\<rparr>"

text \<open>\<open>random.seed(a)\<close>: the state of the global generator is replaced.\<close>

definition random_seed :: "'g random_module \<Rightarrow> int \<Rightarrow> 'g world \<Rightarrow> 'g world" where
  "random_seed rm a w = w\<lparr>global_rng := rnd_seed rm a\<rparr>"

text \<open>
  Lines 135 to 153: a new environment, \<open>random.seed(10)\<close>, the generator process,
  \<open>env.run()\<close>. The draws of the processes go through the global generator, which
  the environment carries as \<open>rng\<close> during the run.
\<close>

definition simulate ::
  "'g random_module \<Rightarrow> int \<Rightarrow> 'g world \<Rightarrow> (error + unit) \<times> 'g environment" where
  "simulate rm num w =
     (let w1 = random_seed rm 10 w in
      env_run rm (schedule URGENT 0 (Resume Generator) (initial_environment num (global_rng w1))))"

text \<open>
  \<open>run_simulation\<close>. The argument is \<open>None\<close> when the caller leaves \<open>num_patients\<close>
  out. The function has no \<open>return\<close> statement: the value it returns is Python's
  \<open>None\<close>, the \<open>None\<close> of \<open>results option\<close>.
\<close>

definition run_simulation ::
  "'g random_module \<Rightarrow> int option \<Rightarrow> 'g world \<Rightarrow> (error + results option) \<times> 'g world" where
  "run_simulation rm arg w =
     (let num = (case arg of None \<Rightarrow> 250 | Some n \<Rightarrow> n) in
      case simulate rm num w of
        (Inl e, s) \<Rightarrow> (Inl e, w\<lparr>global_rng := rng s\<rparr>)
      | (Inr u, s) \<Rightarrow>
          (case calc_statistics (stats_patients s) of
             Inl e \<Rightarrow> (Inl e, w\<lparr>global_rng := rng s\<rparr>)
           | Inr res \<Rightarrow>
               (case save_statistics res default_filename (disk w) of
                  (Inl e, fs) \<Rightarrow> (Inl e, w\<lparr>global_rng := rng s, disk := fs\<rparr>)
                | (Inr u', fs) \<Rightarrow> (Inr None, w\<lparr>global_rng := rng s, disk := fs\<rparr>))))"

text \<open>
  A call of \<open>run_simulation\<close> with positional and keyword arguments. The signature is
  \<open>def run_simulation(num_patients=250)\<close>: Python raises TypeError on a second
  positional argument, on a keyword that is not \<open>num_patients\<close>, and on
  \<open>num_patients\<close> given twice.
\<close>

definition call_run_simulation ::
  "'g random_module \<Rightarrow> int list \<Rightarrow> (string \<times> int) list \<Rightarrow> 'g world
     \<Rightarrow> (error + results option) \<times> 'g world" where
  "call_run_simulation rm args kwargs w =
     (if 1 < length args then (Inl TypeError, w)
      else if list_ex (\<lambda>(k, v). k \<noteq> ''num_patients'') kwargs then (Inl TypeError, w)
      else if args \<noteq> [] \<and> kwargs \<noteq> [] then (Inl TypeError, w)
      else
        (case args of
           n # rest \<Rightarrow> run_simulation rm (Some n) w
         | [] \<Rightarrow> run_simulation rm (map_of kwargs ''num_patients'') w))"

text \<open>The loop of the main program: \<open>for i in range(0, 2): run_simulation()\<close>.\<close>

definition main_loop :: "'g random_module \<Rightarrow> 'g world \<Rightarrow> (error + unit) \<times> 'g world" where
  "main_loop rm w =
     (case run_simulation rm None w of
        (Inl e, w1) \<Rightarrow> (Inl e, w1)
      | (Inr v1, w1) \<Rightarrow>
          (case run_simulation rm None w1 of
             (Inl e, w2) \<Rightarrow> (Inl e, w2)
           | (Inr v2, w2) \<Rightarrow> (Inr (), w2)))"

section \<open>Concrete inputs\<close>

text \<open>
  A small random module on which the simulation can be evaluated: the state counts the
  draws, \<open>random()\<close> alternates between 0.5 and 0.7, a triangular draw returns its first
  argument, an exponential draw the mean, and \<open>choices\<close> walks through the population.
\<close>

definition toy_random :: "nat random_module" where
  "toy_random =
     \<lparr>rnd_seed = (\<lambda>a. nat a),
      rnd_random = (\<lambda>g. (if even g then 1 / 2 else 7 / 10, Suc g)),
      rnd_triangular = (\<lambda>low high mode g. (low, Suc g)),
      rnd_expovariate = (\<lambda>lambd g. (1 / lambd, Suc g)),
      rnd_choices = (\<lambda>population weights k g.
         ([population ! ((g div 5 + 2) mod length population)], Suc g))\<rparr>"

text \<open>
  The same module with the library's \<open>triangular\<close> on its own \<open>random()\<close>. Where
  the library's function raises, which no call of the program does, the value is the
  lower limit.
\<close>

definition toy_library :: "nat random_module" where
  "toy_library =
     toy_random\<lparr>rnd_triangular := (\<lambda>low high mode g.
        (case random_triangular toy_random low high mode g of
           (Inr x, g') \<Rightarrow> (x, g')
         | (Inl e, g') \<Rightarrow> (low, g')))\<rparr>"

text \<open>A world with no results file yet, in which every path can be opened.\<close>

definition toy_world :: "nat world" where
  "toy_world = \<lparr>global_rng = 0, disk = \<lparr>files = Map.empty, writable = (\<lambda>f. True)\<rparr>\<rparr>"

text \<open>
  An environment at time \<open>t\<close> in which patient 0, of type 4, arrived half a time unit
  ago, holds the registration desk and is about to be resumed at the end of its
  registration time.
\<close>

definition registered_env :: "real \<Rightarrow> nat environment" where
  "registered_env t =
     \<lparr>now = t, queue = [], eid = 5,
      users = (\<lambda>r. if r = Registration then [Patient 0] else []),
      put_queue = (\<lambda>r. []),
      patients = [\<lparr>patient_id = 0, patient_type = 4, arrival_time = t - 1 / 2, cont = Reg_held\<rparr>],
      generator = G_finished, num_patients = 1, rng = 0, stats_patients = []\<rparr>"

text \<open>Three records with the total times 10, 20 and 30.\<close>

definition three_records :: "patient_record list" where
  "three_records =
     [\<lparr>rec_id = 0, rec_type = 1, total_time = 10\<rparr>,
      \<lparr>rec_id = 1, rec_type = 1, total_time = 20\<rparr>,
      \<lparr>rec_id = 2, rec_type = 4, total_time = 30\<rparr>]"

text \<open>The statistics of \<open>three_records\<close>.\<close>

definition three_results :: results where
  "three_results =
     \<lparr>overall_avg_time = 20, standard_deviation = 10,
      types = [(1, \<lparr>count = 2, avg_time = 15\<rparr>), (2, \<lparr>count = 0, avg_time = 0\<rparr>),
               (3, \<lparr>count = 0, avg_time = 0\<rparr>), (4, \<lparr>count = 1, avg_time = 30\<rparr>)]\<rparr>"

text \<open>A file system in which the results file exists, with a header and one row.\<close>

definition disk_with_file :: filesystem where
  "disk_with_file =
     \<lparr>files = [default_filename \<mapsto> [header, [Str ''old row'']]], writable = (\<lambda>f. True)\<rparr>"

section \<open>Well-behaved random modules and the state of a run\<close>

text \<open>
  What the simulation needs from the random module to run without an exception: the
  service times and interarrival times it draws are not negative, and \<open>choices\<close>
  returns at least one element, the first of which is one of the four types.
\<close>

definition service_params :: "(real \<times> real \<times> real) list" where
  "service_params =
     [(0.2, 0.5, 1.0), (1.5, 3.2, 5.0), (2.8, 4.1, 6.3), (2.0, 2.8, 4.1), (3.0, 3.8, 4.7)]"

definition well_behaved :: "'g random_module \<Rightarrow> bool" where
  "well_behaved rm =
     (\<forall>g. 0 \<le> fst (rnd_expovariate rm (1 / 0.3) g) \<and>
          list_all (\<lambda>(a, b, c). 0 \<le> fst (rnd_triangular rm a b c g)) service_params \<and>
          (case fst (rnd_choices rm [1, 2, 3, 4] [35, 20, 5, 40] 1 g) of
             [] \<Rightarrow> False
           | ty # rest \<Rightarrow> ty \<in> {1, 2, 3, 4}))"

text \<open>The events in the queue, and how often an event, a user or a waiting request occurs.\<close>

definition evs :: "'g environment \<Rightarrow> event list" where
  "evs s = map (\<lambda>(t, pri, i, ev). ev) (queue s)"

definition cnt :: "'g environment \<Rightarrow> event \<Rightarrow> nat" where
  "cnt s ev = count_list (evs s) ev"

definition in_users :: "'g environment \<Rightarrow> resource \<Rightarrow> proc \<Rightarrow> nat" where
  "in_users s r p = count_list (users s r) p"

definition in_queue :: "'g environment \<Rightarrow> resource \<Rightarrow> proc \<Rightarrow> nat" where
  "in_queue s r p = count_list (put_queue s r) p"

text \<open>The resource a suspended patient has requested, and the one it holds for a time.\<close>

fun requesting :: "patient_cont \<Rightarrow> resource option" where
  "requesting Reg_requested = Some Registration"
| "requesting (Ward_requested cw) = Some cw"
| "requesting (T1_xray_requested cw) = Some X_ray"
| "requesting (T1_ward_requested cw) = Some cw"
| "requesting T2_plaster_requested = Some Plaster"
| "requesting (T3_xray1_requested cw) = Some X_ray"
| "requesting (T3_plaster_requested cw) = Some Plaster"
| "requesting (T3_xray2_requested cw) = Some X_ray"
| "requesting (T3_ward_requested cw) = Some cw"
| "requesting c = None"

fun holding :: "patient_cont \<Rightarrow> resource option" where
  "holding Reg_held = Some Registration"
| "holding (Ward_held cw) = Some cw"
| "holding (T1_xray_held cw) = Some X_ray"
| "holding (T1_ward_held cw) = Some cw"
| "holding T2_plaster_held = Some Plaster"
| "holding (T3_xray1_held cw) = Some X_ray"
| "holding (T3_plaster_held cw) = Some Plaster"
| "holding (T3_xray2_held cw) = Some X_ray"
| "holding (T3_ward_held cw) = Some cw"
| "holding c = None"

definition held_at :: "patient_cont \<Rightarrow> resource option" where
  "held_at c = (case requesting c of Some r \<Rightarrow> Some r | None \<Rightarrow> holding c)"

text \<open>
  A suspended patient is consistent with the environment: it has one scheduled event,
  or none and one waiting request for the resource it asked for; it is a user of that
  resource once the request is granted, and of the resource it holds.
\<close>

definition pat_ok :: "'g environment \<Rightarrow> nat \<Rightarrow> bool" where
  "pat_ok s k =
     (let c = cont (patients s ! k); p = Patient k in
      (\<forall>r. in_queue s r p \<le> (if requesting c = Some r then 1 else 0)) \<and>
      (\<forall>r. in_users s r p + in_queue s r p = (if held_at c = Some r then 1 else 0)) \<and>
      (\<forall>r. requesting c = Some r \<longrightarrow> cnt s (Resume p) + in_queue s r p = 1) \<and>
      (requesting c = None \<longrightarrow> cnt s (Resume p) = (if c = Finished then 0 else 1)))"

text \<open>The process that is running: no event, no waiting request, user of \<open>h\<close> at most.\<close>

definition run_ok :: "'g environment \<Rightarrow> proc \<Rightarrow> resource option \<Rightarrow> bool" where
  "run_ok s p h =
     (cnt s (Resume p) = 0 \<and> (\<forall>r. in_queue s r p = 0) \<and>
      (\<forall>r. in_users s r p = (if h = Some r then 1 else 0)))"

definition misc_ok :: "'g environment \<Rightarrow> bool" where
  "misc_ok s =
     ((\<forall>e. cnt s (Failed e) = 0) \<and>
      (\<forall>r. in_users s r Generator = 0 \<and> in_queue s r Generator = 0) \<and>
      (\<forall>k \<ge> length (patients s). cnt s (Resume (Patient k)) = 0 \<and>
           (\<forall>r. in_users s r (Patient k) = 0 \<and> in_queue s r (Patient k) = 0)))"

text \<open>
  A resource with a waiting request is full, up to the releases that are scheduled and
  not yet processed.
\<close>

definition res_ok :: "'g environment \<Rightarrow> resource \<Rightarrow> bool" where
  "res_ok s r =
     (put_queue s r \<noteq> [] \<longrightarrow> capacity r \<le> length (users s r) + cnt s (Released r))"

text \<open>
  The invariant of the event loop; \<open>cur\<close> is the process that is running, if any, and
  \<open>h\<close> the resource it holds.
\<close>

definition procs_ok :: "'g environment \<Rightarrow> proc option \<Rightarrow> resource option \<Rightarrow> bool" where
  "procs_ok s cur h =
     (misc_ok s \<and>
      (\<forall>k < length (patients s).
         if cur = Some (Patient k) then run_ok s (Patient k) h else pat_ok s k) \<and>
      (if cur = Some Generator then cnt s (Resume Generator) = 0
       else cnt s (Resume Generator) = (if generator s = G_finished then 0 else 1)))"

definition loop_inv :: "'g environment \<Rightarrow> proc option \<Rightarrow> resource option \<Rightarrow> bool" where
  "loop_inv s cur h = (procs_ok s cur h \<and> (\<forall>r. res_ok s r))"

text \<open>The generator and the records: what has been spawned and what has been recorded.\<close>

definition progress_ok :: "'g environment \<Rightarrow> bool" where
  "progress_ok s =
     ((generator s = G_start \<longrightarrow> patients s = []) \<and>
      (\<forall>i. generator s = G_waiting i \<longrightarrow> length (patients s) = i \<and> int i < num_patients s) \<and>
      (generator s = G_finished \<longrightarrow> length (patients s) = nat (num_patients s)) \<and>
      length (stats_patients s) = length (filter (\<lambda>p. cont p = Finished) (patients s)) \<and>
      list_all (\<lambda>p. patient_type p \<in> {1, 2, 3, 4}) (patients s) \<and>
      valid_types (stats_patients s))"

text \<open>Line 47: the arrival time is stored when the process starts.\<close>

definition started :: "real \<Rightarrow> patient_proc \<Rightarrow> patient_proc" where
  "started t p = (if cont p = At_start then p\<lparr>arrival_time := t\<rparr> else p)"

text \<open>
  The steps a patient takes when no draw is negative, by the commands issued: a first
  request; a service time on the resource that was granted; the wait for the doctors; a
  move from one resource to the next; the departure.
\<close>

definition step_shape :: "patient_proc \<Rightarrow> command list \<Rightarrow> patient_cont \<Rightarrow> bool" where
  "step_shape p cmds c' =
     ((\<exists>r. cmds = [Request r] \<and> held_at (cont p) = None \<and> requesting c' = Some r) \<or>
      (\<exists>d r. cmds = [Timeout d] \<and> held_at (cont p) = Some r \<and> requesting c' = None \<and>
          holding c' = Some r \<and> c' \<noteq> Finished) \<or>
      (\<exists>d r. cmds = [Release r, Timeout d] \<and> held_at (cont p) = Some r \<and>
          requesting c' = None \<and> holding c' = None \<and> c' \<noteq> Finished) \<or>
      (\<exists>r r'. cmds = [Release r, Request r'] \<and> held_at (cont p) = Some r \<and>
          requesting c' = Some r') \<or>
      (\<exists>r rec. cmds = [Release r, Record_stats rec, Return] \<and> held_at (cont p) = Some r \<and>
          c' = Finished \<and> rec_type rec = patient_type p))"

text \<open>The steps of the generator when no draw is negative and a type is drawn.\<close>

definition gen_shape :: "int \<Rightarrow> gen_cont \<Rightarrow> command list \<Rightarrow> gen_cont \<Rightarrow> bool" where
  "gen_shape num gc cmds gc' =
     ((\<exists>d. gc = G_start \<and> cmds = [Timeout d] \<and> gc' = G_waiting 0 \<and> 0 < num) \<or>
      (gc = G_start \<and> cmds = [Return] \<and> gc' = G_finished \<and> num \<le> 0) \<or>
      (\<exists>i ty d. gc = G_waiting i \<and> cmds = [Spawn i ty, Timeout d] \<and> gc' = G_waiting (Suc i) \<and>
          int (Suc i) < num \<and> ty \<in> {1, 2, 3, 4}) \<or>
      (\<exists>i ty. gc = G_waiting i \<and> cmds = [Spawn i ty, Return] \<and> gc' = G_finished \<and>
          \<not> int (Suc i) < num \<and> ty \<in> {1, 2, 3, 4}))"

section \<open>Termination of the event loop\<close>

lemma length_enqueue: "length (enqueue e q) = Suc (length q)"
  by (induction q) auto

lemma weight_schedule: "weight (schedule pri d ev s) = Suc (weight s)"
  by (simp add: weight_def schedule_def waiting_def length_enqueue)

lemma waiting_put_queue_upd:
  "waiting (s\<lparr>put_queue := (put_queue s)(r := xs)\<rparr>) + length (put_queue s r) = waiting s + length xs"
  by (cases r) (simp_all add: waiting_def)

lemma weight_put_queue_upd:
  "weight (s\<lparr>put_queue := (put_queue s)(r := xs)\<rparr>) + 2 * length (put_queue s r)
     = weight s + 2 * length xs"
  using waiting_put_queue_upd [of s r xs] by (simp add: weight_def)

lemma weight_users_upd: "weight (s\<lparr>users := u\<rparr>) = weight s"
  by (simp add: weight_def waiting_def)

lemma weight_trigger_put: "weight (trigger_put r s) \<le> weight s"
proof (cases "put_queue s r")
  case Nil
  then show ?thesis by (simp add: trigger_put_def)
next
  case (Cons pr rest)
  show ?thesis
  proof (cases "length (users s r) < capacity r")
    case True
    let ?s0 = "s\<lparr>users := (users s)(r := users s r @ [pr])\<rparr>"
    let ?s1 = "?s0\<lparr>put_queue := (put_queue ?s0)(r := rest)\<rparr>"
    have "weight ?s1 + 2 * length (put_queue ?s0 r) = weight ?s0 + 2 * length rest"
      by (rule weight_put_queue_upd)
    then have "weight ?s1 + 2 = weight s" using Cons by (simp add: weight_users_upd)
    moreover have "trigger_put r s = schedule NORMAL 0 (Resume pr) ?s1"
      using Cons True by (simp add: trigger_put_def)
    ultimately show ?thesis
      by (simp add: weight_schedule)
  next
    case False
    with Cons show ?thesis by (simp add: trigger_put_def)
  qed
qed

lemma weight_exec_command: "weight (exec_command pr c s) \<le> weight s + cost c"
proof (cases c)
  case (Request r)
  let ?s1 = "s\<lparr>put_queue := (put_queue s)(r := put_queue s r @ [pr])\<rparr>"
  have "weight ?s1 + 2 * length (put_queue s r) = weight s + 2 * length (put_queue s r @ [pr])"
    by (rule weight_put_queue_upd)
  then have "weight ?s1 = weight s + 2" by simp
  with weight_trigger_put [of r ?s1] Request show ?thesis by simp
next
  case (Release r)
  then show ?thesis by (simp add: weight_schedule weight_users_upd)
next
  case (Timeout d)
  then show ?thesis by (simp add: weight_schedule)
next
  case (Record_stats rec)
  then show ?thesis by (simp add: weight_def waiting_def)
next
  case (Spawn i ty)
  then show ?thesis by (simp add: weight_schedule) (simp add: weight_def waiting_def)
next
  case Return
  then show ?thesis by (simp add: weight_schedule)
next
  case (Raise e)
  then show ?thesis by (simp add: weight_schedule)
qed

lemma weight_exec_commands:
  "weight (exec_commands pr cs s) \<le> weight s + sum_list (map cost cs)"
proof (induction cs arbitrary: s)
  case Nil
  then show ?case by simp
next
  case (Cons c cs)
  have "weight (exec_commands pr cs (exec_command pr c s))
      \<le> weight (exec_command pr c s) + sum_list (map cost cs)"
    by (rule Cons.IH)
  also have "\<dots> \<le> weight s + cost c + sum_list (map cost cs)"
    using weight_exec_command [of pr c s] by simp
  finally show ?case by simp
qed

lemma env_timeout_cost:
  "env_timeout d cleanup c = (cmds, c') \<Longrightarrow>
   sum_list (map cost cmds) + 3 * rank c' \<le> max (1 + 3 * rank c) (sum_list (map cost cleanup) + 1)"
  by (auto simp: env_timeout_def split: if_splits)

lemma hold_cost:
  "hold sm r c = ((cmds, c'), g') \<Longrightarrow> sum_list (map cost cmds) + 3 * rank c' \<le> 2 + 3 * rank c"
  by (auto simp: hold_def env_timeout_def split: prod.splits if_splits)

lemma patient_step_cost:
  assumes "patient_step rm t p g = ((cmds, c'), g')"
  shows "sum_list (map cost cmds) + 3 * rank c' \<le> 3 * rank (cont p)"
proof (cases "cont p")
  case Reg_held
  with assms show ?thesis
    by (auto simp: patient_step_def env_timeout_def Let_def split: prod.splits if_splits)
qed (use assms in \<open>auto simp: patient_step_def depart_def split: if_splits dest!: hold_cost\<close>)

lemma patient_resume_cost:
  assumes "patient_resume rm t p g = ((cmds, p'), g')"
  shows "sum_list (map cost cmds) + 3 * rank (cont p') \<le> 3 * rank (cont p)"
proof -
  let ?p0 = "if cont p = At_start then p\<lparr>arrival_time := t\<rparr> else p"
  obtain c where st: "patient_step rm t ?p0 g = ((cmds, c), g')" and p': "p' = ?p0\<lparr>cont := c\<rparr>"
    using assms by (auto simp: patient_resume_def Let_def split: prod.splits)
  have "cont ?p0 = cont p" by simp
  with patient_step_cost [OF st] p' show ?thesis by simp
qed

lemma generate_patients_cost:
  assumes "generate_patients rm num gc g = ((cmds, gc'), g')"
  shows "sum_list (map cost cmds) + gen_weight num gc' \<le> gen_weight num gc"
proof (cases gc)
  case G_start
  with assms show ?thesis
    by (auto simp: generate_patients_def next_arrival_def split: prod.splits if_splits)
next
  case (G_waiting i)
  with assms show ?thesis
    by (auto simp: generate_patients_def next_arrival_def
        split: prod.splits if_splits list.splits)
next
  case G_finished
  with assms show ?thesis by (simp add: generate_patients_def)
qed

lemma sum_list_map_update:
  "k < length xs \<Longrightarrow>
   sum_list (map f (xs[k := y])) + f (xs ! k) = sum_list (map f xs) + (f y :: nat)"
proof (induction xs arbitrary: k)
  case Nil
  then show ?case by simp
next
  case (Cons x xs)
  then show ?case by (cases k) auto
qed

lemma weight_resume: "weight (resume rm pr s) \<le> weight s"
proof (cases pr)
  case Generator
  obtain cmds gc g where gp:
    "generate_patients rm (num_patients s) (generator s) (rng s) = ((cmds, gc), g)"
    by (metis prod.exhaust)
  let ?s1 = "s\<lparr>generator := gc, rng := g\<rparr>"
  have "weight ?s1 + gen_weight (num_patients s) (generator s)
      = weight s + gen_weight (num_patients s) gc"
    by (simp add: weight_def waiting_def)
  moreover have "weight (exec_commands Generator cmds ?s1) \<le> weight ?s1 + sum_list (map cost cmds)"
    by (rule weight_exec_commands)
  moreover note generate_patients_cost [OF gp]
  ultimately have "weight (exec_commands Generator cmds ?s1) \<le> weight s" by linarith
  with Generator gp show ?thesis by (simp add: resume_def)
next
  case (Patient k)
  show ?thesis
  proof (cases "k < length (patients s)")
    case False
    with Patient show ?thesis by (simp add: resume_def)
  next
    case True
    obtain cmds p' g where pr:
      "patient_resume rm (now s) (patients s ! k) (rng s) = ((cmds, p'), g)"
      by (metis prod.exhaust)
    let ?s1 = "s\<lparr>patients := (patients s)[k := p'], rng := g\<rparr>"
    have "sum_list (map (\<lambda>p. rank (cont p)) ((patients s)[k := p'])) + rank (cont (patients s ! k))
        = sum_list (map (\<lambda>p. rank (cont p)) (patients s)) + rank (cont p')"
      using True by (rule sum_list_map_update)
    then have "weight ?s1 + 3 * rank (cont (patients s ! k)) = weight s + 3 * rank (cont p')"
      by (simp add: weight_def waiting_def)
    moreover have "weight (exec_commands (Patient k) cmds ?s1) \<le> weight ?s1 + sum_list (map cost cmds)"
      by (rule weight_exec_commands)
    moreover note patient_resume_cost [OF pr]
    ultimately have "weight (exec_commands (Patient k) cmds ?s1) \<le> weight s" by linarith
    with Patient True pr show ?thesis by (simp add: resume_def)
  qed
qed

lemma weight_fire:
  "fire rm ev s = Inr s' \<Longrightarrow> weight s' \<le> weight s"
  by (cases ev) (auto simp: fire_def weight_resume weight_trigger_put)

termination env_run
proof (relation "measure (\<lambda>(rm, s). weight s)")
  show "wf (measure (\<lambda>(rm, s). weight s))" by simp
next
  fix rm :: "'g random_module" and s :: "'g environment" and x21 x22 t y pri z i ev s'
  assume q: "queue s = x21 # x22" and "(t, y) = x21" and "(pri, z) = y" and "(i, ev) = z"
    and f: "fire rm ev (s\<lparr>now := t, queue := x22\<rparr>) = Inr s'"
  have "weight (s\<lparr>now := t, queue := x22\<rparr>) < weight s"
    using q by (simp add: weight_def waiting_def)
  with weight_fire [OF f] show "((rm, s'), (rm, s)) \<in> measure (\<lambda>(rm, s). weight s)"
    by simp
qed

declare env_run.simps [simp del]

section \<open>Properties of the statistics\<close>

lemma dict_append_keys:
  "dict_append d k v = Inr d' \<Longrightarrow> map fst d' = map fst d"
  by (induction d k v arbitrary: d' rule: dict_append.induct)
     (auto split: if_splits sum.splits)

lemma dict_append_ok:
  "k \<in> fst ` set d \<Longrightarrow> \<exists>d'. dict_append d k v = Inr d'"
proof (induction d k v rule: dict_append.induct)
  case (1 k v)
  then show ?case by simp
next
  case (2 k' vs d k v)
  show ?case
  proof (cases "k' = k")
    case True
    then show ?thesis by simp
  next
    case False
    with 2(2) have "k \<in> fst ` set d" by auto
    with 2(1) False obtain d2 where "dict_append d k v = Inr d2" by blast
    with False show ?thesis by simp
  qed
qed

lemma dict_append_lookup:
  "distinct (map fst d) \<Longrightarrow> dict_append d k v = Inr d' \<Longrightarrow>
   map_of d' ty = (if ty = k then map_option (\<lambda>vs. vs @ [v]) (map_of d ty) else map_of d ty)"
proof (induction d k v arbitrary: d' rule: dict_append.induct)
  case (1 k v)
  then show ?case by simp
next
  case (2 k' vs d k v)
  show ?case
  proof (cases "k' = k")
    case True
    with 2 show ?thesis by auto
  next
    case False
    with 2 obtain d2 where d2: "dict_append d k v = Inr d2" "d' = (k', vs) # d2"
      by (auto split: sum.splits)
    from 2 False d2 show ?thesis by auto
  qed
qed

lemma group_patients_keys:
  "group_patients d ps = Inr d' \<Longrightarrow> map fst d' = map fst d"
proof (induction ps arbitrary: d)
  case Nil
  then show ?case by simp
next
  case (Cons p ps)
  then show ?case
    by (auto split: sum.splits dest: dict_append_keys)
qed

lemma group_patients_ok:
  "\<forall>p \<in> set ps. rec_type p \<in> fst ` set d \<Longrightarrow> \<exists>d'. group_patients d ps = Inr d'"
proof (induction ps arbitrary: d)
  case Nil
  then show ?case by simp
next
  case (Cons p ps)
  then obtain d1 where d1: "dict_append d (rec_type p) (total_time p) = Inr d1"
    using dict_append_ok [of "rec_type p" d "total_time p"] by auto
  then have "fst ` set d1 = fst ` set d"
    using dict_append_keys [OF d1] by (metis list.set_map)
  with Cons d1 show ?case by auto
qed

lemma group_patients_lookup:
  "distinct (map fst d) \<Longrightarrow> group_patients d ps = Inr d' \<Longrightarrow>
   map_of d' ty = map_option (\<lambda>vs. vs @ times_of_type ty ps) (map_of d ty)"
proof (induction ps arbitrary: d)
  case Nil
  then show ?case by (simp add: times_of_type_def option.map_ident)
next
  case (Cons p ps)
  then obtain d1 where d1: "dict_append d (rec_type p) (total_time p) = Inr d1"
    and rest: "group_patients d1 ps = Inr d'"
    by (auto split: sum.splits)
  have dist: "distinct (map fst d1)"
    using dict_append_keys [OF d1] Cons.prems(1) by simp
  have "map_of d' ty = map_option (\<lambda>vs. vs @ times_of_type ty ps) (map_of d1 ty)"
    using Cons.IH [OF dist rest] .
  also have "\<dots> = map_option (\<lambda>vs. vs @ times_of_type ty (p # ps)) (map_of d ty)"
    using dict_append_lookup [OF Cons.prems(1) d1, of ty]
    by (cases "map_of d ty") (auto simp: times_of_type_def)
  finally show ?case .
qed

lemma type_entry_of_ok:
  "type_entry_of ts =
     Inr (if ts = [] then \<lparr>count = 0, avg_time = 0\<rparr>
          else \<lparr>count = int (length ts), avg_time = sum_list ts / real (length ts)\<rparr>)"
  by (simp add: type_entry_of_def py_div_def)

lemma type_entries_ok:
  "type_entries d = Inr (map (\<lambda>(ty, ts). (ty, projr (type_entry_of ts))) d)"
  by (induction d rule: type_entries.induct) (auto simp: type_entry_of_ok)

lemma map_of_type_entries:
  "map_of (map (\<lambda>(ty, ts). (ty, projr (type_entry_of ts))) d) ty =
   map_option (\<lambda>ts. projr (type_entry_of ts)) (map_of d ty)"
  by (induction d) auto

lemma valid_types_keys:
  "valid_types stats \<Longrightarrow> \<forall>p \<in> set stats. rec_type p \<in> fst ` set initial_types"
  by (auto simp: valid_types_def initial_types_def list_all_iff)

lemma per_type_statistics_ok:
  assumes "valid_types stats"
  shows "\<exists>tr. per_type_statistics stats = Inr tr \<and>
           (\<forall>ty \<in> {1, 2, 3, 4}. map_of tr ty = Some (projr (type_entry_of (times_of_type ty stats))))"
proof -
  obtain g where g: "group_patients initial_types stats = Inr g"
    using group_patients_ok [OF valid_types_keys [OF assms]] by blast
  have dist: "distinct (map fst initial_types)"
    by (simp add: initial_types_def)
  have look: "map_of g ty = Some (times_of_type ty stats)" if "ty \<in> {1, 2, 3, 4}" for ty
    using group_patients_lookup [OF dist g, of ty] that
    by (auto simp: initial_types_def)
  show ?thesis
    using g look
    by (simp add: per_type_statistics_def type_entries_ok map_of_type_entries)
qed

lemma sum_squares_nonneg: "0 \<le> sum_list (map (\<lambda>p. (total_time p - m)\<^sup>2) (stats :: patient_record list))"
  by (rule sum_list_nonneg) auto

section \<open>Properties of the persistence\<close>

lemma sqrt_100: "sqrt 100 = 10"
  by (rule real_sqrt_unique) simp_all

lemma digit_char_is_digit: "is_digit (digit_char d)"
proof -
  have "d mod 10 < 10" by simp
  then have "d mod 10 = 0 \<or> d mod 10 = 1 \<or> d mod 10 = 2 \<or> d mod 10 = 3 \<or> d mod 10 = 4 \<or>
      d mod 10 = 5 \<or> d mod 10 = 6 \<or> d mod 10 = 7 \<or> d mod 10 = 8 \<or> d mod 10 = 9"
    by arith
  then show ?thesis
    by (auto simp: is_digit_def digit_char_def)
qed

lemma is_digit_not_point: "is_digit c \<Longrightarrow> c \<noteq> CHR ''.''"
  by (auto simp: is_digit_def)

lemma show_nat_digits: "show_nat n \<noteq> [] \<and> list_all is_digit (show_nat n)"
proof (induction n rule: show_nat.induct)
  case (1 n)
  show ?case
  proof (cases "n < 10")
    case True
    then show ?thesis by (simp add: digit_char_is_digit)
  next
    case False
    with 1 show ?thesis
      by (subst (1 2) show_nat.simps) (simp add: digit_char_is_digit)
  qed
qed

lemma replace_point_digits: "list_all is_digit s \<Longrightarrow> replace_point s = s"
  by (induction s) (auto simp: replace_point_def is_digit_def)

lemma replace_point_append: "replace_point (a @ b) = replace_point a @ replace_point b"
  by (simp add: replace_point_def)

lemma format_2f_comma: "comma_decimal (replace_point (format_2f x))"
proof -
  define n where "n = nat (round_half_even (\<bar>x\<bar> * 100))"
  define ds where "ds = show_nat (n div 100)"
  have ds: "ds \<noteq> []" "list_all is_digit ds"
    using show_nat_digits [of "n div 100"] by (simp_all add: ds_def)
  have body: "replace_point (ds @ ''.'' @ [digit_char (n div 10), digit_char n]) =
        ds @ '','' @ [digit_char (n div 10), digit_char n]"
    using ds(2) digit_char_is_digit [of "n div 10"] digit_char_is_digit [of n]
    by (simp add: replace_point_append replace_point_digits)
       (simp add: replace_point_def is_digit_not_point)
  show ?thesis
  proof (cases "x < 0")
    case True
    then have "replace_point (format_2f x) = ''-'' @ ds @ '','' @ [digit_char (n div 10), digit_char n]"
      using body by (simp add: format_2f_def Let_def n_def ds_def replace_point_def)
    then show ?thesis
      unfolding comma_decimal_def using ds digit_char_is_digit by blast
  next
    case False
    then have "replace_point (format_2f x) = [] @ ds @ '','' @ [digit_char (n div 10), digit_char n]"
      using body by (simp add: format_2f_def Let_def n_def ds_def)
    then show ?thesis
      unfolding comma_decimal_def using ds digit_char_is_digit by blast
  qed
qed

section \<open>Properties of the statistics: the whole function\<close>

lemma calc_statistics_ok:
  assumes "valid_types stats" and "2 \<le> length stats"
  shows "\<exists>tr. per_type_statistics stats = Inr tr \<and>
     calc_statistics stats =
       Inr \<lparr>overall_avg_time = sum_list (map total_time stats) / real (length stats),
            standard_deviation =
              sqrt (sum_list (map (\<lambda>p. (total_time p
                       - sum_list (map total_time stats) / real (length stats))\<^sup>2) stats)
                    / (real (length stats) - 1)),
            types = tr\<rparr>"
proof -
  obtain tr where tr: "per_type_statistics stats = Inr tr"
    using per_type_statistics_ok [OF assms(1)] by blast
  let ?m = "sum_list (map total_time stats) / real (length stats)"
  have nn: "\<not> sum_list (map (\<lambda>p. (total_time p - ?m)\<^sup>2) stats) / (real (length stats) - 1) < 0"
    using sum_squares_nonneg [of ?m stats] assms(2) by (simp add: not_less)
  have n1: "real (length stats) \<noteq> 0" "int (length stats) - 1 \<noteq> 0"
    "real_of_int (int (length stats) - 1) = real (length stats) - 1"
    using assms(2) by auto
  show ?thesis
    using tr nn n1 assms(2)
    by (simp add: calc_statistics_def py_div_def math_sqrt_def Let_def)
qed

lemma calc_statistics_three_records: "calc_statistics three_records = Inr three_results"
  by (simp add: calc_statistics_def per_type_statistics_def initial_types_def
      type_entry_of_def py_div_def math_sqrt_def three_records_def three_results_def
      power2_eq_square sqrt_100)

section \<open>Properties of the event loop\<close>

lemma set_enqueue: "set (enqueue e q) = insert e (set q)"
  by (induction q) auto

lemma trigger_put_keeps:
  "x \<in> set (put_queue s r) \<Longrightarrow>
   x \<in> set (put_queue (trigger_put r s) r) \<or> x \<in> set (users (trigger_put r s) r)"
  by (auto simp: trigger_put_def schedule_def split: list.splits)

lemma trigger_put_queue:
  "e \<in> set (queue (trigger_put r s)) \<Longrightarrow> e \<in> set (queue s) \<or> fst e = now s"
  by (auto simp: trigger_put_def schedule_def set_enqueue split: list.splits if_splits)

lemma patients_trigger_put: "patients (trigger_put r s) = patients s"
  by (simp add: trigger_put_def schedule_def split: list.splits)

lemma patient_step_reg_held:
  assumes "cont p = Reg_held"
  shows "patient_step rm t p g =
     (let cw = (if fst (rnd_random rm g) < 0.6 then CW1 else CW2) in
      if t < 30 then (([Release Registration, Timeout (30 - t)], Doctors_wait cw), snd (rnd_random rm g))
      else (([Release Registration, Request cw], Ward_requested cw), snd (rnd_random rm g)))"
  using assms
  by (simp add: patient_step_def env_timeout_def Let_def split: prod.splits)

section \<open>Properties of \<open>run_simulation\<close>\<close>

lemmas run_defs = simulate_def random_seed_def toy_random_def toy_world_def env_run.simps
      initial_environment_def schedule_def URGENT_def NORMAL_def resume_def fire_def
      generate_patients_def next_arrival_def patient_resume_def patient_step_def hold_def
      env_timeout_def depart_def trigger_put_def triangular_dist_def get_cw_time_def

lemma toy_simulate_3:
  "fst (simulate toy_random 3 toy_world) = Inr () \<and>
   stats_patients (snd (simulate toy_random 3 toy_world)) =
     [\<lparr>rec_id = 1, rec_type = 2, total_time = 339 / 10\<rparr>,
      \<lparr>rec_id = 0, rec_type = 1, total_time = 347 / 10\<rparr>,
      \<lparr>rec_id = 2, rec_type = 2, total_time = 183 / 5\<rparr>]"
  by (simp add: run_defs)

lemma simulate_independent: "simulate rm num w' = simulate rm num w"
  by (simp add: simulate_def random_seed_def Let_def)

lemma save_statistics_success:
  assumes "save_statistics res filename fs = (Inr u, fs')"
  shows "writable fs filename \<and>
     (\<exists>row. build_row res = Inr row \<and>
        fs' = fs\<lparr>files := (files fs)(filename \<mapsto>
                (case files fs filename of None \<Rightarrow> [header] | Some rows \<Rightarrow> rows) @ [row])\<rparr>)"
  using assms
  by (auto simp: save_statistics_def Let_def split: if_splits sum.splits option.splits)

lemma save_statistics_append:
  assumes "writable fs filename" and "build_row res = Inr row" and "files fs filename = Some rows"
  shows "save_statistics res filename fs =
     (Inr (), fs\<lparr>files := (files fs)(filename \<mapsto> rows @ [row])\<rparr>)"
  using assms by (simp add: save_statistics_def)

lemma run_simulation_success:
  assumes "run_simulation rm arg w = (Inr v, w1)"
  shows "\<exists>s res fs. simulate rm (case arg of None \<Rightarrow> 250 | Some n \<Rightarrow> n) w = (Inr (), s) \<and>
     calc_statistics (stats_patients s) = Inr res \<and>
     save_statistics res default_filename (disk w) = (Inr (), fs) \<and>
     v = None \<and> w1 = w\<lparr>global_rng := rng s, disk := fs\<rparr>"
  using assms
  by (auto simp: run_simulation_def Let_def split: prod.splits sum.splits)

lemma run_simulation_saved:
  assumes "simulate rm (case arg of None \<Rightarrow> 250 | Some n \<Rightarrow> n) w = (Inr (), s)"
    and "calc_statistics (stats_patients s) = Inr res"
    and "save_statistics res default_filename (disk w) = (Inr (), fs)"
  shows "run_simulation rm arg w = (Inr None, w\<lparr>global_rng := rng s, disk := fs\<rparr>)"
  using assms by (simp add: run_simulation_def Let_def)

lemma type_entries_keys: "type_entries d = Inr r \<Longrightarrow> map fst r = map fst d"
  by (induction d arbitrary: r rule: type_entries.induct) (auto split: sum.splits)

lemma calc_statistics_keys:
  assumes "calc_statistics stats = Inr res" and "k \<in> {1, 2, 3, 4}"
  shows "\<exists>en. map_of (types res) k = Some en"
proof -
  from assms(1) obtain tr where tr: "per_type_statistics stats = Inr tr" "types res = tr"
    by (auto simp: calc_statistics_def Let_def split: sum.splits)
  then obtain g where g: "group_patients initial_types stats = Inr g" "type_entries g = Inr tr"
    by (auto simp: per_type_statistics_def split: sum.splits)
  have "map fst g = [1, 2, 3, 4]"
    using group_patients_keys [OF g(1)] by (simp add: initial_types_def)
  then have "map fst tr = [1, 2, 3, 4]"
    using type_entries_keys [OF g(2)] by simp
  then have "set (map fst tr) = {1, 2, 3, 4}"
    by (simp only: list.set)
  then have "k \<in> fst ` set tr"
    using assms(2) by (simp only: set_map)
  then have "map_of tr k \<noteq> None"
    by (simp only: map_of_eq_None_iff not_not)
  then show ?thesis
    using tr(2) by (cases "map_of tr k") simp_all
qed

lemma build_row_ok:
  assumes "calc_statistics stats = Inr res"
  shows "\<exists>row. build_row res = Inr row"
proof -
  obtain e1 where e1: "map_of (types res) 1 = Some e1"
    using calc_statistics_keys [OF assms, of 1] by auto
  obtain e2 where e2: "map_of (types res) 2 = Some e2"
    using calc_statistics_keys [OF assms, of 2] by auto
  obtain e3 where e3: "map_of (types res) 3 = Some e3"
    using calc_statistics_keys [OF assms, of 3] by auto
  obtain e4 where e4: "map_of (types res) 4 = Some e4"
    using calc_statistics_keys [OF assms, of 4] by auto
  show ?thesis
    using e1 e2 e3 e4 by (simp add: build_row_def type_cells_def types_lookup_def)
qed

lemma toy_run_3:
  "fst (run_simulation toy_random (Some 3) toy_world) = Inr None"
proof -
  obtain s where s: "simulate toy_random 3 toy_world = (Inr (), s)"
    and st: "stats_patients s =
     [\<lparr>rec_id = 1, rec_type = 2, total_time = 339 / 10\<rparr>,
      \<lparr>rec_id = 0, rec_type = 1, total_time = 347 / 10\<rparr>,
      \<lparr>rec_id = 2, rec_type = 2, total_time = 183 / 5\<rparr>]"
    using toy_simulate_3 by (cases "simulate toy_random 3 toy_world") auto
  have "valid_types (stats_patients s)" "2 \<le> length (stats_patients s)"
    by (simp_all add: st valid_types_def)
  then obtain res where res: "calc_statistics (stats_patients s) = Inr res"
    using calc_statistics_ok by blast
  then obtain row where row: "build_row res = Inr row"
    using build_row_ok by blast
  then have "\<exists>fs. save_statistics res default_filename (disk toy_world) = (Inr (), fs)"
    by (simp add: save_statistics_def toy_world_def)
  then obtain fs where "save_statistics res default_filename (disk toy_world) = (Inr (), fs)" ..
  with s res show ?thesis
    using run_simulation_saved [of toy_random "Some 3" toy_world s res fs] by simp
qed

lemma run_simulation_rng:
  "run_simulation rm arg (w\<lparr>global_rng := g\<rparr>) = run_simulation rm arg w"
  using simulate_independent [of rm "case arg of None \<Rightarrow> 250 | Some n \<Rightarrow> n" "w\<lparr>global_rng := g\<rparr>" w]
  by (simp add: run_simulation_def Let_def split: prod.splits sum.splits)

lemma run_simulation_again:
  assumes run: "run_simulation rm arg w = (Inr v, w1)"
  shows "\<exists>rows row w2.
         files (disk w1) default_filename = Some (rows @ [row]) \<and>
         run_simulation rm arg w1 = (Inr None, w2) \<and>
         files (disk w2) default_filename = Some (rows @ [row, row])"
proof -
  let ?num = "case arg of None \<Rightarrow> 250 | Some n \<Rightarrow> n"
  obtain s res fs where s: "simulate rm ?num w = (Inr (), s)"
    and res: "calc_statistics (stats_patients s) = Inr res"
    and sv: "save_statistics res default_filename (disk w) = (Inr (), fs)"
    and w1: "w1 = w\<lparr>global_rng := rng s, disk := fs\<rparr>"
    using run_simulation_success [OF run] by blast
  let ?rows = "case files (disk w) default_filename of None \<Rightarrow> [header] | Some rows \<Rightarrow> rows"
  obtain row where wr: "writable (disk w) default_filename" and row: "build_row res = Inr row"
    and fs: "fs = (disk w)\<lparr>files := (files (disk w))(default_filename \<mapsto> ?rows @ [row])\<rparr>"
    using save_statistics_success [OF sv] by blast
  have f1: "files (disk w1) default_filename = Some (?rows @ [row])"
    by (simp add: w1 fs)
  have wr1: "writable (disk w1) default_filename"
    using wr by (simp add: w1 fs)
  let ?fs2 = "(disk w1)\<lparr>files := (files (disk w1))(default_filename \<mapsto> (?rows @ [row]) @ [row])\<rparr>"
  have sv2: "save_statistics res default_filename (disk w1) = (Inr (), ?fs2)"
    using wr1 row f1 by (rule save_statistics_append)
  have s1: "simulate rm ?num w1 = (Inr (), s)"
    using s simulate_independent [of rm ?num w1 w] by simp
  have r2: "run_simulation rm arg w1 = (Inr None, w1\<lparr>global_rng := rng s, disk := ?fs2\<rparr>)"
    using s1 res sv2 by (rule run_simulation_saved)
  have f2: "files (disk (w1\<lparr>global_rng := rng s, disk := ?fs2\<rparr>)) default_filename
      = Some (?rows @ [row, row])"
    by simp
  show ?thesis
    by (intro exI conjI) (rule f1, rule r2, rule f2)
qed

text \<open>The loop of the main program, when both of its runs succeed.\<close>

lemma main_loop_two_rows:
  assumes "main_loop rm w = (Inr u, w2)"
  shows "\<exists>rows row. files (disk w2) default_filename = Some (rows @ [row, row])"
proof -
  obtain v1 w1 where r1: "run_simulation rm None w = (Inr v1, w1)"
    using assms by (auto simp: main_loop_def split: prod.splits sum.splits)
  obtain rows row w2' where f: "run_simulation rm None w1 = (Inr None, w2')"
    "files (disk w2') default_filename = Some (rows @ [row, row])"
    using run_simulation_again [OF r1] by blast
  have "w2 = w2'"
    using assms r1 f(1) by (simp add: main_loop_def)
  with f(2) show ?thesis by blast
qed

section \<open>The run of a well-behaved random module\<close>

subsection \<open>Counting\<close>

lemma count_list_map_enqueue:
  "count_list (map f (enqueue e q)) x = count_list (map f q) x + (if f e = x then 1 else 0)"
  by (induction q) auto

lemma cnt_schedule [simp]:
  "cnt (schedule pri d e s) x = cnt s x + (if x = e then 1 else 0)"
  by (auto simp: cnt_def evs_def schedule_def count_list_map_enqueue)

lemma fields_schedule [simp]:
  "users (schedule pri d e s) = users s"
  "put_queue (schedule pri d e s) = put_queue s"
  "patients (schedule pri d e s) = patients s"
  "generator (schedule pri d e s) = generator s"
  "num_patients (schedule pri d e s) = num_patients s"
  "stats_patients (schedule pri d e s) = stats_patients s"
  "rng (schedule pri d e s) = rng s"
  by (simp_all add: schedule_def)

lemma in_users_schedule [simp]: "in_users (schedule pri d e s) = in_users s"
  by (simp add: in_users_def fun_eq_iff)

lemma in_queue_schedule [simp]: "in_queue (schedule pri d e s) = in_queue s"
  by (simp add: in_queue_def fun_eq_iff)

lemma count_list_remove1:
  "count_list (remove1 x xs) y = count_list xs y - (if x = y then 1 else 0)"
  by (induction xs) auto

lemma length_remove1_count:
  "0 < count_list xs x \<Longrightarrow> Suc (length (remove1 x xs)) = length xs"
  by (induction xs) (auto split: if_splits)

lemma count_list_pos_iff: "0 < count_list xs x \<longleftrightarrow> x \<in> set xs"
  by (induction xs) auto

subsection \<open>A scheduled resumption\<close>

lemma misc_ok_schedule_patient:
  "misc_ok s \<Longrightarrow> k < length (patients s) \<Longrightarrow> misc_ok (schedule pri d (Resume (Patient k)) s)"
  by (auto simp: misc_ok_def)

lemma pat_ok_schedule_other:
  "ev \<noteq> Resume (Patient k) \<Longrightarrow> pat_ok (schedule pri d ev s) k = pat_ok s k"
  by (simp add: pat_ok_def Let_def)

lemma res_ok_schedule:
  "res_ok s r \<Longrightarrow> res_ok (schedule pri d ev s) r"
  by (auto simp: res_ok_def)

lemma run_ok_to_pat_ok:
  assumes "run_ok s (Patient k) h" and "requesting (cont (patients s ! k)) = None"
    and "holding (cont (patients s ! k)) = h" and "cont (patients s ! k) \<noteq> Finished"
  shows "pat_ok (schedule pri d (Resume (Patient k)) s) k"
  using assms by (auto simp: run_ok_def pat_ok_def held_at_def Let_def)

lemma inv_timeout_patient:
  assumes "loop_inv s (Some (Patient k)) h" and "k < length (patients s)"
    and "requesting (cont (patients s ! k)) = None"
    and "holding (cont (patients s ! k)) = h" and "cont (patients s ! k) \<noteq> Finished"
  shows "loop_inv (schedule pri d (Resume (Patient k)) s) None h'"
proof -
  let ?s = "schedule pri d (Resume (Patient k)) s"
  have misc: "misc_ok ?s"
    using assms(1,2) by (simp add: loop_inv_def procs_ok_def misc_ok_schedule_patient)
  have pats: "pat_ok ?s k'" if "k' < length (patients s)" for k'
  proof (cases "k' = k")
    case True
    have "run_ok s (Patient k) h"
      using assms(1,2) by (simp add: loop_inv_def procs_ok_def)
    then show ?thesis using assms(3-5) True by (simp add: run_ok_to_pat_ok)
  next
    case False
    then have "pat_ok s k'"
      using assms(1) that by (simp add: loop_inv_def procs_ok_def)
    with False show ?thesis by (simp add: pat_ok_schedule_other)
  qed
  have gen: "cnt ?s (Resume Generator) = (if generator ?s = G_finished then 0 else 1)"
    using assms(1) by (simp add: loop_inv_def procs_ok_def)
  have res: "res_ok ?s r" for r
    using assms(1) by (simp add: loop_inv_def res_ok_schedule)
  show ?thesis
    using misc pats gen res by (simp add: loop_inv_def procs_ok_def)
qed


subsection \<open>Field updates\<close>

lemma cnt_upd [simp]:
  "cnt (s\<lparr>users := u\<rparr>) = cnt s"
  "cnt (s\<lparr>put_queue := q\<rparr>) = cnt s"
  "cnt (s\<lparr>patients := ps\<rparr>) = cnt s"
  "cnt (s\<lparr>generator := gc\<rparr>) = cnt s"
  "cnt (s\<lparr>rng := g\<rparr>) = cnt s"
  "cnt (s\<lparr>stats_patients := st\<rparr>) = cnt s"
  "cnt (s\<lparr>now := t\<rparr>) = cnt s"
  by (simp_all add: cnt_def evs_def fun_eq_iff)

lemma in_users_upd [simp]:
  "in_users (s\<lparr>users := u\<rparr>) r p = count_list (u r) p"
  "in_users (s\<lparr>put_queue := q\<rparr>) = in_users s"
  "in_users (s\<lparr>patients := ps\<rparr>) = in_users s"
  "in_users (s\<lparr>generator := gc\<rparr>) = in_users s"
  "in_users (s\<lparr>rng := g\<rparr>) = in_users s"
  "in_users (s\<lparr>stats_patients := st\<rparr>) = in_users s"
  "in_users (s\<lparr>now := t\<rparr>) = in_users s"
  "in_users (s\<lparr>queue := qu\<rparr>) = in_users s"
  by (simp_all add: in_users_def fun_eq_iff)

lemma in_queue_upd [simp]:
  "in_queue (s\<lparr>put_queue := q\<rparr>) r p = count_list (q r) p"
  "in_queue (s\<lparr>users := u\<rparr>) = in_queue s"
  "in_queue (s\<lparr>patients := ps\<rparr>) = in_queue s"
  "in_queue (s\<lparr>generator := gc\<rparr>) = in_queue s"
  "in_queue (s\<lparr>rng := g\<rparr>) = in_queue s"
  "in_queue (s\<lparr>stats_patients := st\<rparr>) = in_queue s"
  "in_queue (s\<lparr>now := t\<rparr>) = in_queue s"
  "in_queue (s\<lparr>queue := qu\<rparr>) = in_queue s"
  by (simp_all add: in_queue_def fun_eq_iff)

lemma count_list_fold [simp]:
  "count_list (users s r) p = in_users s r p"
  "count_list (put_queue s r) p = in_queue s r p"
  by (simp_all add: in_users_def in_queue_def)

lemma loop_inv_stats [simp]: "loop_inv (s\<lparr>stats_patients := st\<rparr>) cur h = loop_inv s cur h"
  by (simp add: loop_inv_def procs_ok_def misc_ok_def pat_ok_def run_ok_def res_ok_def Let_def)

lemma loop_inv_rng [simp]: "loop_inv (s\<lparr>rng := g\<rparr>) cur h = loop_inv s cur h"
  by (simp add: loop_inv_def procs_ok_def misc_ok_def pat_ok_def run_ok_def res_ok_def Let_def)

lemma loop_inv_cont_upd:
  assumes "k < length (patients s)"
  shows "loop_inv (s\<lparr>patients := (patients s)[k := p']\<rparr>) (Some (Patient k)) h
     = loop_inv s (Some (Patient k)) h"
  using assms
  by (auto simp: loop_inv_def procs_ok_def misc_ok_def pat_ok_def run_ok_def res_ok_def Let_def)

lemma loop_inv_generator_upd:
  "loop_inv (s\<lparr>generator := gc\<rparr>) (Some Generator) h = loop_inv s (Some Generator) h"
  by (simp add: loop_inv_def procs_ok_def misc_ok_def pat_ok_def run_ok_def res_ok_def Let_def)

lemma pat_ok_cong:
  assumes "cont (patients s' ! k) = cont (patients s ! k)"
    and "\<And>r. in_queue s' r (Patient k) = in_queue s r (Patient k)"
    and "\<And>r. in_users s' r (Patient k) = in_users s r (Patient k)"
    and "cnt s' (Resume (Patient k)) = cnt s (Resume (Patient k))"
  shows "pat_ok s' k = pat_ok s k"
  using assms by (simp add: pat_ok_def)

lemma loop_inv_idleI:
  assumes "misc_ok s" and "\<And>k. k < length (patients s) \<Longrightarrow> pat_ok s k"
    and "cnt s (Resume Generator) = (if generator s = G_finished then 0 else 1)"
    and "\<And>r. res_ok s r"
  shows "loop_inv s None h"
  using assms by (simp add: loop_inv_def procs_ok_def)

lemma loop_inv_idleD:
  assumes "loop_inv s None h"
  shows "misc_ok s" and "k < length (patients s) \<Longrightarrow> pat_ok s k"
    and "cnt s (Resume Generator) = (if generator s = G_finished then 0 else 1)"
    and "res_ok s r"
  using assms by (simp_all add: loop_inv_def procs_ok_def)

lemma loop_inv_patientI:
  assumes "misc_ok s" and "k < length (patients s)" and "run_ok s (Patient k) h"
    and "\<And>k'. k' < length (patients s) \<Longrightarrow> k' \<noteq> k \<Longrightarrow> pat_ok s k'"
    and "cnt s (Resume Generator) = (if generator s = G_finished then 0 else 1)"
    and "\<And>r. res_ok s r"
  shows "loop_inv s (Some (Patient k)) h"
  using assms by (simp add: loop_inv_def procs_ok_def)

lemma loop_inv_patientD:
  assumes "loop_inv s (Some (Patient k)) h"
  shows "misc_ok s" and "k < length (patients s) \<Longrightarrow> run_ok s (Patient k) h"
    and "k' < length (patients s) \<Longrightarrow> k' \<noteq> k \<Longrightarrow> pat_ok s k'"
    and "cnt s (Resume Generator) = (if generator s = G_finished then 0 else 1)"
    and "res_ok s r"
  using assms by (simp_all add: loop_inv_def procs_ok_def)

lemma loop_inv_genI:
  assumes "misc_ok s" and "\<And>k. k < length (patients s) \<Longrightarrow> pat_ok s k"
    and "cnt s (Resume Generator) = 0"
    and "\<And>r. res_ok s r"
  shows "loop_inv s (Some Generator) h"
  using assms by (simp add: loop_inv_def procs_ok_def)

lemma loop_inv_genD:
  assumes "loop_inv s (Some Generator) h"
  shows "misc_ok s" and "k < length (patients s) \<Longrightarrow> pat_ok s k"
    and "cnt s (Resume Generator) = 0"
    and "res_ok s r"
  using assms by (simp_all add: loop_inv_def procs_ok_def)

subsection \<open>Release\<close>

lemma inv_release:
  assumes inv: "loop_inv s (Some (Patient k)) (Some r)" and k: "k < length (patients s)"
  shows "loop_inv (exec_command (Patient k) (Release r) s) (Some (Patient k)) None"
proof -
  let ?s1 = "s\<lparr>users := (users s)(r := remove1 (Patient k) (users s r))\<rparr>"
  let ?s = "schedule NORMAL 0 (Released r) ?s1"
  have run: "run_ok s (Patient k) (Some r)"
    using inv k by (simp add: loop_inv_def procs_ok_def)
  have misc: "misc_ok s" using inv by (simp add: loop_inv_def procs_ok_def)
  have iu: "in_users ?s r' p = in_users s r' p - (if r' = r \<and> p = Patient k then 1 else 0)" for r' p
    by (simp add: count_list_remove1)
  have m: "misc_ok ?s"
    using misc by (auto simp: misc_ok_def iu)
  have r0: "run_ok ?s (Patient k) None"
    using run by (auto simp: run_ok_def iu)
  have pk: "pat_ok ?s k'" if "k' < length (patients s)" "k' \<noteq> k" for k'
  proof -
    have "pat_ok s k'" using inv that by (simp add: loop_inv_def procs_ok_def)
    moreover have "pat_ok ?s k' = pat_ok s k'"
      using that(2) by (intro pat_ok_cong) (simp_all add: iu)
    ultimately show ?thesis by simp
  qed
  have gen: "cnt ?s (Resume Generator) = cnt s (Resume Generator)" by simp
  have res: "res_ok ?s r'" for r'
  proof (cases "r' = r")
    case False
    have "res_ok s r'" using inv by (simp add: loop_inv_def)
    with False show ?thesis by (simp add: res_ok_def)
  next
    case True
    have "res_ok s r" using inv by (simp add: loop_inv_def)
    moreover have "0 < count_list (users s r) (Patient k)"
      using run by (simp add: run_ok_def)
    then have "Suc (length (remove1 (Patient k) (users s r))) = length (users s r)"
      by (rule length_remove1_count)
    ultimately show ?thesis using True by (auto simp: res_ok_def)
  qed
  have "loop_inv ?s (Some (Patient k)) None"
    using m r0 pk res inv k
    by (auto simp: loop_inv_def procs_ok_def)
  then show ?thesis by simp
qed

subsection \<open>Granting a request\<close>

lemma pat_ok_requesting:
  assumes "pat_ok s k" and "in_queue s r (Patient k) \<noteq> 0"
  shows "requesting (cont (patients s ! k)) = Some r"
    and "in_queue s r (Patient k) = 1"
    and "in_users s r' (Patient k) = 0"
    and "cnt s (Resume (Patient k)) = 0"
    and "r' \<noteq> r \<Longrightarrow> in_queue s r' (Patient k) = 0"
proof -
  let ?c = "cont (patients s ! k)"
  have q: "in_queue s x (Patient k) \<le> (if requesting ?c = Some x then 1 else 0)" for x
    using assms(1) by (simp add: pat_ok_def Let_def)
  have uq: "in_users s x (Patient k) + in_queue s x (Patient k)
      = (if held_at ?c = Some x then 1 else 0)" for x
    using assms(1) by (simp add: pat_ok_def Let_def)
  have c: "requesting ?c = Some x \<Longrightarrow> cnt s (Resume (Patient k)) + in_queue s x (Patient k) = 1" for x
    using assms(1) by (simp add: pat_ok_def Let_def)
  show req: "requesting ?c = Some r"
    using q [of r] assms(2) by (cases "requesting ?c = Some r") simp_all
  show one: "in_queue s r (Patient k) = 1"
    using q [of r] assms(2) req by simp
  have held: "held_at ?c = Some r" using req by (simp add: held_at_def)
  show "in_users s r' (Patient k) = 0"
    using uq [of r'] uq [of r] one held by (cases "r' = r") simp_all
  show "cnt s (Resume (Patient k)) = 0"
    using c [OF req] one by simp
  show "in_queue s r' (Patient k) = 0" if "r' \<noteq> r"
    using q [of r'] req that by simp
qed

lemma pat_ok_granted:
  assumes "requesting (cont (patients s ! k)) = Some r"
    and "\<And>r'. in_queue s r' (Patient k) = 0"
    and "\<And>r'. in_users s r' (Patient k) = (if r' = r then 1 else 0)"
    and "cnt s (Resume (Patient k)) = 1"
  shows "pat_ok s k"
  using assms by (simp add: pat_ok_def Let_def held_at_def)

lemma inv_trigger_put:
  assumes po: "procs_ok s None h"
    and others: "\<And>r'. r' \<noteq> r \<Longrightarrow> res_ok s r'"
    and weak: "tl (put_queue s r) \<noteq> [] \<Longrightarrow>
        capacity r \<le> length (users s r) + cnt s (Released r) + 1"
  shows "loop_inv (trigger_put r s) None h'"
proof (cases "put_queue s r")
  case Nil
  then have "trigger_put r s = s" by (simp add: trigger_put_def)
  moreover have "res_ok s r'" for r'
    using others [of r'] Nil by (cases "r' = r") (simp_all add: res_ok_def)
  ultimately show ?thesis using po by (simp add: loop_inv_def procs_ok_def)
next
  case (Cons pr w)
  show ?thesis
  proof (cases "length (users s r) < capacity r")
    case False
    then have "trigger_put r s = s" using Cons by (simp add: trigger_put_def)
    moreover have "res_ok s r'" for r'
      using others [of r'] False by (cases "r' = r") (simp_all add: res_ok_def)
    ultimately show ?thesis using po by (simp add: loop_inv_def procs_ok_def)
  next
    case True
    let ?s1 = "s\<lparr>users := (users s)(r := users s r @ [pr]), put_queue := (put_queue s)(r := w)\<rparr>"
    let ?s = "schedule NORMAL 0 (Resume pr) ?s1"
    have tp: "trigger_put r s = ?s" using Cons True by (simp add: trigger_put_def)
    have misc: "misc_ok s" using po by (simp add: procs_ok_def)
    have iq: "in_queue s r p = (if p = pr then 1 else 0) + count_list w p" for p
      using Cons by (simp add: in_queue_def del: count_list_fold)
    have pos: "in_queue s r pr \<noteq> 0" by (simp add: iq)
    have "pr \<noteq> Generator"
    proof
      assume "pr = Generator"
      moreover have "in_queue s r Generator = 0" using misc by (simp add: misc_ok_def)
      ultimately show False using pos by simp
    qed
    then obtain kh where pr: "pr = Patient kh" by (cases pr) simp_all
    have kh: "kh < length (patients s)"
    proof (rule ccontr)
      assume "\<not> kh < length (patients s)"
      then have "length (patients s) \<le> kh" by simp
      then have "in_queue s r (Patient kh) = 0" using misc by (simp add: misc_ok_def)
      with pos pr show False by simp
    qed
    have okh: "pat_ok s kh" using po kh by (simp add: procs_ok_def)
    have pos': "in_queue s r (Patient kh) \<noteq> 0" using pos pr by simp
    note f = pat_ok_requesting [OF okh pos']
    have w0: "count_list w pr = 0" using f(2) iq [of pr] pr by simp
    have iu': "in_users ?s r' p = in_users s r' p + (if r' = r \<and> p = pr then 1 else 0)" for r' p
      by simp
    have iq': "in_queue ?s r' p = in_queue s r' p - (if r' = r \<and> p = pr then 1 else 0)" for r' p
      by (simp add: iq)
    have cn: "cnt ?s x = cnt s x + (if x = Resume pr then 1 else 0)" for x
      by simp
    have pats: "patients ?s = patients s" by simp
    have m: "misc_ok ?s"
      unfolding misc_ok_def pats
    proof (intro conjI allI impI)
      fix e show "cnt ?s (Failed e) = 0"
        by (simp only: cn) (use misc in \<open>simp add: misc_ok_def\<close>)
    next
      fix r' show "in_users ?s r' Generator = 0"
        by (simp only: iu') (use misc pr in \<open>simp add: misc_ok_def\<close>)
    next
      fix r' show "in_queue ?s r' Generator = 0"
        by (simp only: iq') (use misc pr in \<open>simp add: misc_ok_def\<close>)
    next
      fix k assume "length (patients s) \<le> k"
      then show "cnt ?s (Resume (Patient k)) = 0"
        by (simp only: cn) (use misc pr kh in \<open>auto simp: misc_ok_def\<close>)
    next
      fix k r' assume "length (patients s) \<le> k"
      then show "in_users ?s r' (Patient k) = 0"
        by (simp only: iu') (use misc pr kh in \<open>auto simp: misc_ok_def\<close>)
    next
      fix k r' assume "length (patients s) \<le> k"
      then show "in_queue ?s r' (Patient k) = 0"
        by (simp only: iq') (use misc pr kh in \<open>auto simp: misc_ok_def\<close>)
    qed
    have pk: "pat_ok ?s k" if k: "k < length (patients s)" for k
    proof (cases "k = kh")
      case True
      show ?thesis
        unfolding True
      proof (rule pat_ok_granted [where r = r])
        show "requesting (cont (patients ?s ! kh)) = Some r"
          using f(1) by (simp only: pats)
        show "in_queue ?s r' (Patient kh) = 0" for r'
          by (simp only: iq') (use f(2) f(5) [of r'] pr in \<open>cases "r' = r"; simp\<close>)
        show "in_users ?s r' (Patient kh) = (if r' = r then 1 else 0)" for r'
          by (simp only: iu') (use f(3) [of r'] pr in simp)
        show "cnt ?s (Resume (Patient kh)) = 1"
          by (simp only: cn) (use f(4) pr in simp)
      qed
    next
      case False
      have "pat_ok s k" using po k by (simp add: procs_ok_def)
      moreover have "pat_ok ?s k = pat_ok s k"
      proof (rule pat_ok_cong)
        show "cont (patients ?s ! k) = cont (patients s ! k)" by (simp only: pats)
        show "in_queue ?s r' (Patient k) = in_queue s r' (Patient k)" for r'
          by (simp only: iq') (use False pr in simp)
        show "in_users ?s r' (Patient k) = in_users s r' (Patient k)" for r'
          by (simp only: iu') (use False pr in simp)
        show "cnt ?s (Resume (Patient k)) = cnt s (Resume (Patient k))"
          by (simp only: cn) (use False pr in simp)
      qed
      ultimately show ?thesis by simp
    qed
    have gen: "cnt ?s (Resume Generator) = (if generator ?s = G_finished then 0 else 1)"
      using po pr by (simp add: procs_ok_def)
    have res: "res_ok ?s r'" for r'
    proof (cases "r' = r")
      case False
      with others [of r'] show ?thesis by (simp add: res_ok_def)
    next
      case same: True
      show ?thesis
      proof (cases "w = []")
        case True
        with same show ?thesis by (simp add: res_ok_def)
      next
        case False
        then have "tl (put_queue s r) \<noteq> []" using Cons by simp
        from weak [OF this] same show ?thesis by (simp add: res_ok_def)
      qed
    qed
    have "loop_inv ?s None h'"
    proof (rule loop_inv_idleI)
      show "misc_ok ?s" by (rule m)
      show "pat_ok ?s k" if "k < length (patients ?s)" for k
        using that by (intro pk) (simp only: pats)
      show "cnt ?s (Resume Generator) = (if generator ?s = G_finished then 0 else 1)"
        by (rule gen)
      show "res_ok ?s r'" for r' by (rule res)
    qed
    then show ?thesis by (simp only: tp)
  qed
qed

subsection \<open>Request and return of a patient\<close>

lemma pat_ok_waiting:
  assumes "requesting (cont (patients s ! k)) = Some r"
    and "\<And>r'. in_queue s r' (Patient k) = (if r' = r then 1 else 0)"
    and "\<And>r'. in_users s r' (Patient k) = 0"
    and "cnt s (Resume (Patient k)) = 0"
  shows "pat_ok s k"
  using assms by (simp add: pat_ok_def Let_def held_at_def)

lemma pat_ok_gone:
  assumes "cont (patients s ! k) = Finished"
    and "\<And>r'. in_queue s r' (Patient k) = 0"
    and "\<And>r'. in_users s r' (Patient k) = 0"
    and "cnt s (Resume (Patient k)) = 0"
  shows "pat_ok s k"
  using assms by (simp add: pat_ok_def Let_def held_at_def)

lemma run_okD:
  assumes "run_ok s p h"
  shows "cnt s (Resume p) = 0" and "in_queue s r p = 0"
    and "in_users s r p = (if h = Some r then 1 else 0)"
  using assms by (simp_all add: run_ok_def)

lemma inv_request:
  assumes inv: "loop_inv s (Some (Patient k)) None" and k: "k < length (patients s)"
    and req: "requesting (cont (patients s ! k)) = Some r"
  shows "loop_inv (exec_command (Patient k) (Request r) s) None h'"
proof -
  let ?s1 = "s\<lparr>put_queue := (put_queue s)(r := put_queue s r @ [Patient k])\<rparr>"
  note d = loop_inv_patientD [OF inv]
  note ro = run_okD [OF d(2) [OF k]]
  have iq: "in_queue ?s1 r' p = in_queue s r' p + (if r' = r \<and> p = Patient k then 1 else 0)" for r' p
    by simp
  have iu: "in_users ?s1 = in_users s" by simp
  have cn: "cnt ?s1 = cnt s" by simp
  have pats: "patients ?s1 = patients s" by simp
  have m: "misc_ok ?s1"
    unfolding misc_ok_def pats iu cn
  proof (intro conjI allI impI)
    fix k' r' assume "length (patients s) \<le> k'"
    then show "in_queue ?s1 r' (Patient k') = 0"
      by (simp only: iq) (use d(1) k in \<open>auto simp: misc_ok_def\<close>)
  next
    fix r' show "in_queue ?s1 r' Generator = 0"
      by (simp only: iq) (use d(1) in \<open>auto simp: misc_ok_def\<close>)
  qed (use d(1) in \<open>auto simp: misc_ok_def\<close>)
  have pk: "pat_ok ?s1 k'" if k': "k' < length (patients s)" for k'
  proof (cases "k' = k")
    case True
    show ?thesis
      unfolding True
    proof (rule pat_ok_waiting [where r = r])
      show "requesting (cont (patients ?s1 ! k)) = Some r"
        using req by (simp only: pats)
      show "in_queue ?s1 r' (Patient k) = (if r' = r then 1 else 0)" for r'
        by (simp only: iq) (use ro(2) [of r'] in simp)
      show "in_users ?s1 r' (Patient k) = 0" for r'
        using ro(3) [of r'] by (simp only: iu) simp
      show "cnt ?s1 (Resume (Patient k)) = 0"
        using ro(1) by (simp only: cn)
    qed
  next
    case False
    have "pat_ok ?s1 k' = pat_ok s k'"
    proof (rule pat_ok_cong)
      show "in_queue ?s1 r' (Patient k') = in_queue s r' (Patient k')" for r'
        by (simp only: iq) (use False in simp)
    qed (simp_all only: pats iu cn)
    with d(3) [OF k' False] show ?thesis by simp
  qed
  have po: "procs_ok ?s1 None None"
    unfolding procs_ok_def using m pk d(4) by (simp add: pats)
  have others: "res_ok ?s1 r'" if "r' \<noteq> r" for r'
    using d(5) [of r'] that by (simp add: res_ok_def)
  have weak: "capacity r \<le> length (users ?s1 r) + cnt ?s1 (Released r) + 1"
    if "tl (put_queue ?s1 r) \<noteq> []"
  proof -
    from that have "put_queue s r \<noteq> []" by (cases "put_queue s r") simp_all
    with d(5) [of r] show ?thesis by (simp add: res_ok_def)
  qed
  have "loop_inv (trigger_put r ?s1) None h'"
    using po others weak by (rule inv_trigger_put)
  then show ?thesis by simp
qed

lemma inv_return_patient:
  assumes inv: "loop_inv s (Some (Patient k)) None" and k: "k < length (patients s)"
    and fin: "cont (patients s ! k) = Finished"
  shows "loop_inv (exec_command (Patient k) Return s) None h'"
proof -
  let ?s = "schedule NORMAL 0 Ended s"
  note d = loop_inv_patientD [OF inv]
  note ro = run_okD [OF d(2) [OF k]]
  have "loop_inv ?s None h'"
  proof (rule loop_inv_idleI)
    show "misc_ok ?s" using d(1) by (simp add: misc_ok_def)
    show "pat_ok ?s k'" if "k' < length (patients ?s)" for k'
    proof (cases "k' = k")
      case True
      show ?thesis unfolding True
        by (rule pat_ok_gone) (use fin ro in simp_all)
    next
      case False
      have "pat_ok ?s k' = pat_ok s k'" by (rule pat_ok_cong) simp_all
      with d(3) [of k'] that False show ?thesis by simp
    qed
    show "cnt ?s (Resume Generator) = (if generator ?s = G_finished then 0 else 1)"
      using d(4) by simp
    show "res_ok ?s r" for r using d(5) [of r] by (simp add: res_ok_def)
  qed
  then show ?thesis by simp
qed

subsection \<open>The commands of the generator\<close>

lemma inv_spawn:
  assumes inv: "loop_inv s (Some Generator) None"
  shows "loop_inv (exec_command Generator (Spawn i ty) s) (Some Generator) None"
proof -
  let ?n = "length (patients s)"
  let ?new = "\<lparr>patient_id = int i, patient_type = ty, arrival_time = 0, cont = At_start\<rparr>"
  let ?s = "schedule URGENT 0 (Resume (Patient ?n)) (s\<lparr>patients := patients s @ [?new]\<rparr>)"
  note d = loop_inv_genD [OF inv]
  have pats: "patients ?s = patients s @ [?new]" by simp
  have "loop_inv ?s (Some Generator) None"
  proof (rule loop_inv_genI)
    show "misc_ok ?s" using d(1) by (auto simp: misc_ok_def)
    show "pat_ok ?s k" if "k < length (patients ?s)" for k
    proof (cases "k = ?n")
      case True
      have z: "in_queue s r (Patient ?n) = 0" "in_users s r (Patient ?n) = 0"
        "cnt s (Resume (Patient ?n)) = 0" for r
        using d(1) by (simp_all add: misc_ok_def)
      show ?thesis
        unfolding True by (simp add: pat_ok_def Let_def held_at_def z)
    next
      case False
      with that have lt: "k < ?n" by simp
      have "pat_ok ?s k = pat_ok s k"
        by (rule pat_ok_cong) (use lt in \<open>simp_all add: nth_append\<close>)
      with d(2) [OF lt] show ?thesis by simp
    qed
    show "cnt ?s (Resume Generator) = 0" using d(3) by simp
    show "res_ok ?s r" for r using d(4) [of r] by (simp add: res_ok_def)
  qed
  then show ?thesis by simp
qed

lemma inv_timeout_gen:
  assumes inv: "loop_inv s (Some Generator) None" and "generator s \<noteq> G_finished"
  shows "loop_inv (exec_command Generator (Timeout d) s) None h'"
proof -
  let ?s = "schedule NORMAL d (Resume Generator) s"
  note d = loop_inv_genD [OF inv]
  have "loop_inv ?s None h'"
  proof (rule loop_inv_idleI)
    show "misc_ok ?s" using d(1) by (simp add: misc_ok_def)
    show "pat_ok ?s k" if "k < length (patients ?s)" for k
    proof -
      have "pat_ok ?s k = pat_ok s k" by (rule pat_ok_cong) simp_all
      with d(2) [of k] that show ?thesis by simp
    qed
    show "cnt ?s (Resume Generator) = (if generator ?s = G_finished then 0 else 1)"
      using d(3) assms(2) by simp
    show "res_ok ?s r" for r using d(4) [of r] by (simp add: res_ok_def)
  qed
  then show ?thesis by simp
qed

lemma inv_return_gen:
  assumes inv: "loop_inv s (Some Generator) None" and "generator s = G_finished"
  shows "loop_inv (exec_command Generator Return s) None h'"
proof -
  let ?s = "schedule NORMAL 0 Ended s"
  note d = loop_inv_genD [OF inv]
  have "loop_inv ?s None h'"
  proof (rule loop_inv_idleI)
    show "misc_ok ?s" using d(1) by (simp add: misc_ok_def)
    show "pat_ok ?s k" if "k < length (patients ?s)" for k
    proof -
      have "pat_ok ?s k = pat_ok s k" by (rule pat_ok_cong) simp_all
      with d(2) [of k] that show ?thesis by simp
    qed
    show "cnt ?s (Resume Generator) = (if generator ?s = G_finished then 0 else 1)"
      using d(3) assms(2) by simp
    show "res_ok ?s r" for r using d(4) [of r] by (simp add: res_ok_def)
  qed
  then show ?thesis by simp
qed

subsection \<open>Taking an event from the queue\<close>

lemma cnt_pop:
  assumes "queue s = (t, pri, i, ev) # q"
  shows "cnt s x = cnt (s\<lparr>now := t, queue := q\<rparr>) x + (if x = ev then 1 else 0)"
  using assms by (simp add: cnt_def evs_def)

lemma fields_pop [simp]:
  "patients (s\<lparr>now := t, queue := q\<rparr>) = patients s"
  "generator (s\<lparr>now := t, queue := q\<rparr>) = generator s"
  "users (s\<lparr>now := t, queue := q\<rparr>) = users s"
  "put_queue (s\<lparr>now := t, queue := q\<rparr>) = put_queue s"
  by simp_all

lemma pop_patient:
  assumes inv: "loop_inv s None h" and q: "queue s = (t, pri, i, Resume (Patient k)) # q"
  shows "k < length (patients s)" and "cont (patients s ! k) \<noteq> Finished"
    and "loop_inv (s\<lparr>now := t, queue := q\<rparr>) (Some (Patient k))
           (held_at (cont (patients s ! k)))"
proof -
  let ?s0 = "s\<lparr>now := t, queue := q\<rparr>"
  let ?c = "cont (patients s ! k)"
  note d = loop_inv_idleD [OF inv]
  note cp = cnt_pop [OF q]
  have pos: "cnt s (Resume (Patient k)) = Suc (cnt ?s0 (Resume (Patient k)))"
    by (simp add: cp)
  show k: "k < length (patients s)"
  proof (rule ccontr)
    assume "\<not> k < length (patients s)"
    then have "cnt s (Resume (Patient k)) = 0" using d(1) by (simp add: misc_ok_def)
    with pos show False by simp
  qed
  have ok: "pat_ok s k" by (rule d(2) [OF k])
  have qle: "in_queue s r (Patient k) \<le> (if requesting ?c = Some r then 1 else 0)" for r
    using ok by (simp add: pat_ok_def Let_def)
  have uq: "in_users s r (Patient k) + in_queue s r (Patient k)
      = (if held_at ?c = Some r then 1 else 0)" for r
    using ok by (simp add: pat_ok_def Let_def)
  have c1: "requesting ?c = Some r \<Longrightarrow> cnt s (Resume (Patient k)) + in_queue s r (Patient k) = 1" for r
    using ok by (simp add: pat_ok_def Let_def)
  have c2: "requesting ?c = None \<Longrightarrow> cnt s (Resume (Patient k)) = (if ?c = Finished then 0 else 1)"
    using ok by (simp add: pat_ok_def Let_def)
  show nf: "?c \<noteq> Finished"
  proof
    assume f: "?c = Finished"
    then have "requesting ?c = None" by simp
    from c2 [OF this] f pos show False by simp
  qed
  have q0: "in_queue s r (Patient k) = 0" for r
  proof (cases "requesting ?c = Some r")
    case True
    from c1 [OF this] pos show ?thesis by simp
  next
    case False
    with qle [of r] show ?thesis by simp
  qed
  have c0: "cnt ?s0 (Resume (Patient k)) = 0"
  proof (cases "requesting ?c")
    case None
    from c2 [OF this] nf pos show ?thesis by simp
  next
    case (Some r)
    from c1 [OF this] pos show ?thesis by simp
  qed
  show "loop_inv ?s0 (Some (Patient k)) (held_at ?c)"
  proof (rule loop_inv_patientI)
    show "misc_ok ?s0" using d(1) by (auto simp: misc_ok_def cp)
    show "k < length (patients ?s0)" using k by simp
    show "run_ok ?s0 (Patient k) (held_at ?c)"
      using c0 q0 uq by (simp add: run_ok_def)
    show "pat_ok ?s0 k'" if "k' < length (patients ?s0)" "k' \<noteq> k" for k'
    proof -
      have "pat_ok ?s0 k' = pat_ok s k'"
        by (rule pat_ok_cong) (use that(2) in \<open>simp_all add: cp\<close>)
      with d(2) [of k'] that(1) show ?thesis by simp
    qed
    show "cnt ?s0 (Resume Generator) = (if generator ?s0 = G_finished then 0 else 1)"
      using d(3) by (simp add: cp)
    show "res_ok ?s0 r" for r using d(4) [of r] by (simp add: res_ok_def cp)
  qed
qed

lemma pop_generator:
  assumes inv: "loop_inv s None h" and q: "queue s = (t, pri, i, Resume Generator) # q"
  shows "generator s \<noteq> G_finished"
    and "loop_inv (s\<lparr>now := t, queue := q\<rparr>) (Some Generator) None"
proof -
  let ?s0 = "s\<lparr>now := t, queue := q\<rparr>"
  note d = loop_inv_idleD [OF inv]
  note cp = cnt_pop [OF q]
  have pos: "cnt s (Resume Generator) = Suc (cnt ?s0 (Resume Generator))"
    by (simp add: cp)
  show nf: "generator s \<noteq> G_finished"
    using d(3) pos by auto
  show "loop_inv ?s0 (Some Generator) None"
  proof (rule loop_inv_genI)
    show "misc_ok ?s0" using d(1) by (auto simp: misc_ok_def cp)
    show "pat_ok ?s0 k" if "k < length (patients ?s0)" for k
    proof -
      have "pat_ok ?s0 k = pat_ok s k"
        by (rule pat_ok_cong) (simp_all add: cp)
      with d(2) [of k] that show ?thesis by simp
    qed
    show "cnt ?s0 (Resume Generator) = 0" using d(3) pos nf by simp
    show "res_ok ?s0 r" for r using d(4) [of r] by (simp add: res_ok_def cp)
  qed
qed

lemma pop_released:
  assumes inv: "loop_inv s None h" and q: "queue s = (t, pri, i, Released r) # q"
  shows "loop_inv (trigger_put r (s\<lparr>now := t, queue := q\<rparr>)) None h'"
proof (rule inv_trigger_put)
  let ?s0 = "s\<lparr>now := t, queue := q\<rparr>"
  note d = loop_inv_idleD [OF inv]
  note cp = cnt_pop [OF q]
  have m: "misc_ok ?s0" using d(1) by (auto simp: misc_ok_def cp)
  have pk: "pat_ok ?s0 k" if "k < length (patients s)" for k
  proof -
    have "pat_ok ?s0 k = pat_ok s k"
      by (rule pat_ok_cong) (simp_all add: cp)
    with d(2) [OF that] show ?thesis by simp
  qed
  show "procs_ok ?s0 None h"
    unfolding procs_ok_def using m pk d(3) by (simp add: cp)
  show "res_ok ?s0 r'" if "r' \<noteq> r" for r'
    using d(4) [of r'] that by (simp add: res_ok_def cp)
  show "capacity r \<le> length (users ?s0 r) + cnt ?s0 (Released r) + 1"
    if "tl (put_queue ?s0 r) \<noteq> []"
  proof -
    from that have "put_queue s r \<noteq> []" by (cases "put_queue s r") simp_all
    with d(4) [of r] show ?thesis by (simp add: res_ok_def cp)
  qed
qed

lemma pop_ended:
  assumes inv: "loop_inv s None h" and q: "queue s = (t, pri, i, Ended) # q"
  shows "loop_inv (s\<lparr>now := t, queue := q\<rparr>) None h'"
proof (rule loop_inv_idleI)
  let ?s0 = "s\<lparr>now := t, queue := q\<rparr>"
  note d = loop_inv_idleD [OF inv]
  note cp = cnt_pop [OF q]
  show "misc_ok ?s0" using d(1) by (auto simp: misc_ok_def cp)
  show "pat_ok ?s0 k" if "k < length (patients ?s0)" for k
  proof -
    have "pat_ok ?s0 k = pat_ok s k"
      by (rule pat_ok_cong) (simp_all add: cp)
    with d(2) [of k] that show ?thesis by simp
  qed
  show "cnt ?s0 (Resume Generator) = (if generator ?s0 = G_finished then 0 else 1)"
    using d(3) by (simp add: cp)
  show "res_ok ?s0 r" for r using d(4) [of r] by (simp add: res_ok_def cp)
qed

lemma pop_failed:
  assumes inv: "loop_inv s None h" and q: "queue s = (t, pri, i, Failed e) # q"
  shows False
proof -
  have "cnt s (Failed e) = 0"
    using loop_inv_idleD(1) [OF inv] by (simp add: misc_ok_def)
  then show False by (simp add: cnt_pop [OF q])
qed

subsection \<open>The steps of a patient under a well-behaved random module\<close>

lemma wb_triangular:
  assumes "well_behaved rm"
  shows "0 \<le> fst (triangular_dist rm 0.2 0.5 1.0 g)"
    and "0 \<le> fst (triangular_dist rm 1.5 3.2 5.0 g)"
    and "0 \<le> fst (triangular_dist rm 2.8 4.1 6.3 g)"
    and "0 \<le> fst (triangular_dist rm 2.0 2.8 4.1 g)"
    and "0 \<le> fst (triangular_dist rm 3.0 3.8 4.7 g)"
  using assms [unfolded well_behaved_def, rule_format, of g]
  by (simp_all add: triangular_dist_def service_params_def)

lemma wb_expovariate:
  assumes "well_behaved rm"
  shows "0 \<le> fst (rnd_expovariate rm (1 / 0.3) g)"
  using assms [unfolded well_behaved_def, rule_format, of g] by simp

lemma wb_choices:
  assumes "well_behaved rm"
  shows "\<exists>ty rest. fst (rnd_choices rm [1, 2, 3, 4] [35, 20, 5, 40] 1 g) = ty # rest \<and>
          ty \<in> {1, 2, 3, 4}"
  using assms [unfolded well_behaved_def, rule_format, of g]
  by (auto split: list.splits)

lemma wb_get_cw_time:
  assumes "well_behaved rm"
  shows "0 \<le> fst (get_cw_time rm CW1 CW2 cw g)"
  using wb_triangular [OF assms, of g] by (simp add: get_cw_time_def)

lemma hold_ok:
  assumes "0 \<le> fst sample"
  shows "hold sample r c = (([Timeout (fst sample)], c), snd sample)"
  using assms by (cases sample) (simp add: hold_def env_timeout_def)

lemma patient_step_shape:
  assumes wb: "well_behaved rm" and st: "patient_step rm t p g = ((cmds, c'), g')"
    and nf: "cont p \<noteq> Finished"
  shows "step_shape p cmds c'"
proof -
  note t = wb_triangular [OF wb, simplified]
  note h = hold_ok [OF wb_get_cw_time [OF wb]] hold_ok [OF t(1)] hold_ok [OF t(4)] hold_ok [OF t(5)]
  show ?thesis
  proof (cases "cont p")
    case Reg_held
    with st show ?thesis
      by (auto simp: patient_step_def step_shape_def held_at_def env_timeout_def Let_def
          split: prod.splits if_splits)
  next
    case (Ward_held cw)
    with st show ?thesis
      by (auto simp: patient_step_def step_shape_def held_at_def depart_def split: if_splits)
  next
    case Finished
    with nf show ?thesis by simp
  qed (use st in \<open>auto simp: patient_step_def step_shape_def held_at_def depart_def h\<close>)
qed

subsection \<open>Resuming a patient\<close>

lemma started_simps [simp]:
  "cont (started t p) = cont p" "patient_type (started t p) = patient_type p"
  "patient_id (started t p) = patient_id p"
  by (simp_all add: started_def)

lemma resume_patient_unfold:
  assumes "k < length (patients s)"
    and "patient_step rm (now s) (started (now s) (patients s ! k)) (rng s) = ((cmds, c'), g')"
  shows "resume rm (Patient k) s =
     exec_commands (Patient k) cmds
       (s\<lparr>patients := (patients s)[k := (started (now s) (patients s ! k))\<lparr>cont := c'\<rparr>],
          rng := g'\<rparr>)"
  using assms by (simp add: resume_def patient_resume_def Let_def started_def)


lemma inv_resume_patient:
  assumes wb: "well_behaved rm"
    and inv: "loop_inv s (Some (Patient k)) (held_at (cont (patients s ! k)))"
    and k: "k < length (patients s)" and nf: "cont (patients s ! k) \<noteq> Finished"
  shows "loop_inv (resume rm (Patient k) s) None h'"
proof -
  define p0 where "p0 = started (now s) (patients s ! k)"
  obtain cmds c' g' where st: "patient_step rm (now s) p0 (rng s) = ((cmds, c'), g')"
    by (metis prod.exhaust)
  have c0: "cont p0 = cont (patients s ! k)" by (simp add: p0_def)
  define s1 where "s1 = s\<lparr>patients := (patients s)[k := p0\<lparr>cont := c'\<rparr>], rng := g'\<rparr>"
  have res: "resume rm (Patient k) s = exec_commands (Patient k) cmds s1"
    unfolding s1_def p0_def using k st [unfolded p0_def] by (rule resume_patient_unfold)
  have inv1: "loop_inv s1 (Some (Patient k)) (held_at (cont p0))"
    unfolding s1_def c0 using inv k by (simp add: loop_inv_cont_upd)
  have k1: "k < length (patients s1)" using k by (simp add: s1_def)
  have c1: "cont (patients s1 ! k) = c'" using k by (simp add: s1_def)
  have sh: "step_shape p0 cmds c'"
    using wb st by (rule patient_step_shape) (simp add: c0 nf)
  have "loop_inv (exec_commands (Patient k) cmds s1) None h'"
    using sh unfolding step_shape_def
  proof (elim disjE exE conjE, goal_cases)
    case (1 r)
    have "loop_inv (exec_command (Patient k) (Request r) s1) None h'"
    proof (rule inv_request)
      show "loop_inv s1 (Some (Patient k)) None" using inv1 1(2) by simp
      show "k < length (patients s1)" by (rule k1)
      show "requesting (cont (patients s1 ! k)) = Some r" using 1(3) by (simp only: c1)
    qed
    then show ?case by (simp only: 1(1) exec_commands.simps)
  next
    case (2 d r)
    have "loop_inv (schedule NORMAL d (Resume (Patient k)) s1) None h'"
    proof (rule inv_timeout_patient)
      show "loop_inv s1 (Some (Patient k)) (Some r)" using inv1 2(2) by simp
      show "k < length (patients s1)" by (rule k1)
      show "requesting (cont (patients s1 ! k)) = None" using 2(3) by (simp only: c1)
      show "holding (cont (patients s1 ! k)) = Some r" using 2(4) by (simp only: c1)
      show "cont (patients s1 ! k) \<noteq> Finished" using 2(5) by (simp add: c1)
    qed
    then show ?case by (simp only: 2(1) exec_commands.simps exec_command.simps)
  next
    case (3 d r)
    define s2 where "s2 = exec_command (Patient k) (Release r) s1"
    have p2: "patients s2 = patients s1" by (simp add: s2_def)
    have i2: "loop_inv s2 (Some (Patient k)) None"
      unfolding s2_def
    proof (rule inv_release)
      show "loop_inv s1 (Some (Patient k)) (Some r)" using inv1 3(2) by simp
      show "k < length (patients s1)" by (rule k1)
    qed
    have "loop_inv (schedule NORMAL d (Resume (Patient k)) s2) None h'"
    proof (rule inv_timeout_patient)
      show "loop_inv s2 (Some (Patient k)) None" by (rule i2)
      show "k < length (patients s2)" using k1 by (simp only: p2)
      show "requesting (cont (patients s2 ! k)) = None" using 3(3) by (simp only: p2 c1)
      show "holding (cont (patients s2 ! k)) = None" using 3(4) by (simp only: p2 c1)
      show "cont (patients s2 ! k) \<noteq> Finished" using 3(5) by (simp add: p2 c1)
    qed
    then show ?case
      by (simp only: 3(1) exec_commands.simps exec_command.simps(3) s2_def)
  next
    case (4 r r')
    define s2 where "s2 = exec_command (Patient k) (Release r) s1"
    have p2: "patients s2 = patients s1" by (simp add: s2_def)
    have i2: "loop_inv s2 (Some (Patient k)) None"
      unfolding s2_def
    proof (rule inv_release)
      show "loop_inv s1 (Some (Patient k)) (Some r)" using inv1 4(2) by simp
      show "k < length (patients s1)" by (rule k1)
    qed
    have "loop_inv (exec_command (Patient k) (Request r') s2) None h'"
    proof (rule inv_request)
      show "loop_inv s2 (Some (Patient k)) None" by (rule i2)
      show "k < length (patients s2)" using k1 by (simp only: p2)
      show "requesting (cont (patients s2 ! k)) = Some r'" using 4(3) by (simp only: p2 c1)
    qed
    then show ?case
      by (simp only: 4(1) exec_commands.simps s2_def)
  next
    case (5 r rec)
    define s2 where "s2 = exec_command (Patient k) (Release r) s1"
    define s3 where "s3 = exec_command (Patient k) (Record_stats rec) s2"
    have p3: "patients s3 = patients s1" by (simp add: s3_def s2_def)
    have i2: "loop_inv s2 (Some (Patient k)) None"
      unfolding s2_def
    proof (rule inv_release)
      show "loop_inv s1 (Some (Patient k)) (Some r)" using inv1 5(2) by simp
      show "k < length (patients s1)" by (rule k1)
    qed
    have i3: "loop_inv s3 (Some (Patient k)) None"
      using i2 by (simp add: s3_def)
    have "loop_inv (exec_command (Patient k) Return s3) None h'"
    proof (rule inv_return_patient)
      show "loop_inv s3 (Some (Patient k)) None" by (rule i3)
      show "k < length (patients s3)" using k1 by (simp only: p3)
      show "cont (patients s3 ! k) = Finished" using 5(3) by (simp only: p3 c1)
    qed
    then show ?case
      by (simp only: 5(1) exec_commands.simps s2_def s3_def)
  qed
  then show ?thesis by (simp only: res)
qed

subsection \<open>Resuming the generator\<close>

lemma next_arrival_ok:
  assumes "well_behaved rm"
  shows "next_arrival rm i issued g =
     ((issued @ [Timeout (fst (rnd_expovariate rm (1 / 0.3) g))], G_waiting i),
      snd (rnd_expovariate rm (1 / 0.3) g))"
  using wb_expovariate [OF assms, of g]
  by (auto simp: next_arrival_def split: prod.splits)

lemma generate_patients_shape:
  assumes wb: "well_behaved rm" and st: "generate_patients rm num gc g = ((cmds, gc'), g')"
    and nf: "gc \<noteq> G_finished"
  shows "gen_shape num gc cmds gc'"
proof (cases gc)
  case G_start
  with st show ?thesis
    by (auto simp: generate_patients_def gen_shape_def next_arrival_ok [OF wb] split: if_splits)
next
  case (G_waiting i)
  obtain ty rest where ch: "fst (rnd_choices rm [1, 2, 3, 4] [35, 20, 5, 40] 1 g) = ty # rest"
    and ty: "ty \<in> {1, 2, 3, 4}"
    using wb_choices [OF wb, of g] by blast
  from st G_waiting ch ty show ?thesis
    by (auto simp: generate_patients_def gen_shape_def next_arrival_ok [OF wb]
        split: prod.splits if_splits)
next
  case G_finished
  with nf show ?thesis by simp
qed

lemma generator_exec_spawn [simp]:
  "generator (exec_command pr (Spawn i ty) s) = generator s"
  by simp

lemma inv_resume_generator:
  assumes wb: "well_behaved rm" and inv: "loop_inv s (Some Generator) None"
    and nf: "generator s \<noteq> G_finished"
  shows "loop_inv (resume rm Generator s) None h'"
proof -
  obtain cmds gc' g' where
    st: "generate_patients rm (num_patients s) (generator s) (rng s) = ((cmds, gc'), g')"
    by (metis prod.exhaust)
  define s1 where "s1 = s\<lparr>generator := gc', rng := g'\<rparr>"
  have res: "resume rm Generator s = exec_commands Generator cmds s1"
    using st by (simp add: resume_def s1_def)
  have inv1: "loop_inv s1 (Some Generator) None"
    using inv by (simp add: s1_def loop_inv_generator_upd)
  have g1: "generator s1 = gc'" by (simp add: s1_def)
  have sh: "gen_shape (num_patients s) (generator s) cmds gc'"
    using wb st nf by (rule generate_patients_shape)
  have "loop_inv (exec_commands Generator cmds s1) None h'"
    using sh unfolding gen_shape_def
  proof (elim disjE exE conjE, goal_cases)
    case (1 d)
    have "loop_inv (exec_command Generator (Timeout d) s1) None h'"
      using inv1 by (rule inv_timeout_gen) (simp add: g1 1(3))
    then show ?case by (simp only: 1(2) exec_commands.simps)
  next
    case 2
    have "loop_inv (exec_command Generator Return s1) None h'"
      using inv1 by (rule inv_return_gen) (simp add: g1 2(3))
    then show ?case by (simp only: 2(2) exec_commands.simps)
  next
    case (3 i ty d)
    define s2 where "s2 = exec_command Generator (Spawn i ty) s1"
    have i2: "loop_inv s2 (Some Generator) None"
      unfolding s2_def using inv1 by (rule inv_spawn)
    have g2: "generator s2 = gc'" by (simp add: s2_def g1)
    have "loop_inv (exec_command Generator (Timeout d) s2) None h'"
      using i2 by (rule inv_timeout_gen) (simp add: g2 3(3))
    then show ?case by (simp only: 3(2) exec_commands.simps s2_def)
  next
    case (4 i ty)
    define s2 where "s2 = exec_command Generator (Spawn i ty) s1"
    have i2: "loop_inv s2 (Some Generator) None"
      unfolding s2_def using inv1 by (rule inv_spawn)
    have g2: "generator s2 = gc'" by (simp add: s2_def g1)
    have "loop_inv (exec_command Generator Return s2) None h'"
      using i2 by (rule inv_return_gen) (simp add: g2 4(3))
    then show ?case by (simp only: 4(2) exec_commands.simps s2_def)
  qed
  then show ?thesis by (simp only: res)
qed

subsection \<open>What is spawned and what is recorded\<close>

lemma fields_trigger_put [simp]:
  "patients (trigger_put r s) = patients s"
  "generator (trigger_put r s) = generator s"
  "num_patients (trigger_put r s) = num_patients s"
  "stats_patients (trigger_put r s) = stats_patients s"
  by (simp_all add: trigger_put_def split: list.splits)

lemma progress_ok_cong:
  assumes "patients s' = patients s" and "generator s' = generator s"
    and "num_patients s' = num_patients s" and "stats_patients s' = stats_patients s"
  shows "progress_ok s' = progress_ok s"
  using assms by (simp add: progress_ok_def)

lemma num_patients_exec_command [simp]:
  "num_patients (exec_command pr c s) = num_patients s"
  by (cases c) simp_all

lemma num_patients_exec_commands [simp]:
  "num_patients (exec_commands pr cs s) = num_patients s"
  by (induction cs arbitrary: s) simp_all

lemma num_patients_resume [simp]: "num_patients (resume rm pr s) = num_patients s"
  by (cases pr) (simp_all add: resume_def split: prod.splits)

lemma length_filter_update:
  "k < length xs \<Longrightarrow>
   length (filter P (xs[k := y])) + (if P (xs ! k) then 1 else 0)
     = length (filter P xs) + (if P y then (1::nat) else 0)"
proof (induction xs arbitrary: k)
  case Nil
  then show ?case by simp
next
  case (Cons x xs)
  then show ?case by (cases k) auto
qed

lemma list_all_update:
  "list_all P xs \<Longrightarrow> P y \<Longrightarrow> list_all P (xs[k := y])"
  by (induction xs arbitrary: k) (auto split: nat.splits)

lemma progress_patient_stay:
  assumes pr: "progress_ok s" and k: "k < length (patients s)"
    and "cont (patients s ! k) \<noteq> Finished" and "cont p' \<noteq> Finished"
    and "patient_type p' = patient_type (patients s ! k)"
  shows "progress_ok (s\<lparr>patients := (patients s)[k := p']\<rparr>)"
proof -
  have ty: "patient_type p' \<in> {1, 2, 3, 4}"
    using pr k assms(5) by (simp add: progress_ok_def list_all_length)
  have "length (filter (\<lambda>p. cont p = Finished) ((patients s)[k := p']))
      = length (filter (\<lambda>p. cont p = Finished) (patients s))"
    using length_filter_update [OF k, of "\<lambda>p. cont p = Finished" p'] assms(3,4) by simp
  then show ?thesis
    using pr ty by (simp add: progress_ok_def list_all_update)
qed

lemma progress_patient_leave:
  assumes pr: "progress_ok s" and k: "k < length (patients s)"
    and "cont (patients s ! k) \<noteq> Finished" and "cont p' = Finished"
    and "patient_type p' = patient_type (patients s ! k)"
    and "rec_type rec = patient_type p'"
  shows "progress_ok (s\<lparr>patients := (patients s)[k := p'],
                        stats_patients := stats_patients s @ [rec]\<rparr>)"
proof -
  have ty: "patient_type p' \<in> {1, 2, 3, 4}"
    using pr k assms(5) by (simp add: progress_ok_def list_all_length)
  have "length (filter (\<lambda>p. cont p = Finished) ((patients s)[k := p']))
      = Suc (length (filter (\<lambda>p. cont p = Finished) (patients s)))"
    using length_filter_update [OF k, of "\<lambda>p. cont p = Finished" p'] assms(3,4) by simp
  then show ?thesis
    using pr ty assms(6)
    by (simp add: progress_ok_def list_all_update valid_types_def)
qed

lemma fields_exec_plain:
  assumes "\<And>i ty. c \<noteq> Spawn i ty" and "\<And>rec. c \<noteq> Record_stats rec"
  shows "patients (exec_command pr c s) = patients s"
    and "generator (exec_command pr c s) = generator s"
    and "stats_patients (exec_command pr c s) = stats_patients s"
  using assms by (cases c; simp)+

lemma progress_resume_patient:
  assumes wb: "well_behaved rm" and pr: "progress_ok s"
    and k: "k < length (patients s)" and nf: "cont (patients s ! k) \<noteq> Finished"
  shows "progress_ok (resume rm (Patient k) s)"
proof -
  define p0 where "p0 = started (now s) (patients s ! k)"
  obtain cmds c' g' where st: "patient_step rm (now s) p0 (rng s) = ((cmds, c'), g')"
    by (metis prod.exhaust)
  have c0: "cont p0 = cont (patients s ! k)" "patient_type p0 = patient_type (patients s ! k)"
    by (simp_all add: p0_def)
  define s1 where "s1 = s\<lparr>patients := (patients s)[k := p0\<lparr>cont := c'\<rparr>], rng := g'\<rparr>"
  have res: "resume rm (Patient k) s = exec_commands (Patient k) cmds s1"
    unfolding s1_def p0_def using k st [unfolded p0_def] by (rule resume_patient_unfold)
  have sh: "step_shape p0 cmds c'"
    using wb st by (rule patient_step_shape) (simp add: c0 nf)
  have stay: "progress_ok s1" if "c' \<noteq> Finished"
  proof -
    have "progress_ok (s\<lparr>patients := (patients s)[k := p0\<lparr>cont := c'\<rparr>]\<rparr>)"
      using pr k nf by (rule progress_patient_stay) (simp_all add: that c0)
    moreover have "progress_ok s1 = progress_ok (s\<lparr>patients := (patients s)[k := p0\<lparr>cont := c'\<rparr>]\<rparr>)"
      by (rule progress_ok_cong) (simp_all add: s1_def)
    ultimately show ?thesis by simp
  qed
  have "progress_ok (exec_commands (Patient k) cmds s1)"
    using sh unfolding step_shape_def
  proof (elim disjE exE conjE, goal_cases)
    case (1 r)
    have "c' \<noteq> Finished" using 1(3) by auto
    from stay [OF this] have "progress_ok (exec_commands (Patient k) cmds s1) = progress_ok s1"
      by (intro progress_ok_cong) (simp_all add: 1(1))
    with stay [OF \<open>c' \<noteq> Finished\<close>] show ?case by simp
  next
    case (2 d r)
    have "progress_ok (exec_commands (Patient k) cmds s1) = progress_ok s1"
      by (intro progress_ok_cong) (simp_all add: 2(1))
    with stay [OF 2(5)] show ?case by simp
  next
    case (3 d r)
    have "progress_ok (exec_commands (Patient k) cmds s1) = progress_ok s1"
      by (intro progress_ok_cong) (simp_all add: 3(1))
    with stay [OF 3(5)] show ?case by simp
  next
    case (4 r r')
    have "c' \<noteq> Finished" using 4(3) by auto
    have "progress_ok (exec_commands (Patient k) cmds s1) = progress_ok s1"
      by (intro progress_ok_cong) (simp_all add: 4(1))
    with stay [OF \<open>c' \<noteq> Finished\<close>] show ?case by simp
  next
    case (5 r rec)
    let ?s2 = "s\<lparr>patients := (patients s)[k := p0\<lparr>cont := c'\<rparr>],
                  stats_patients := stats_patients s @ [rec]\<rparr>"
    have "progress_ok ?s2"
      using pr k nf by (rule progress_patient_leave) (simp_all add: 5(3,4) c0)
    moreover have "progress_ok (exec_commands (Patient k) cmds s1) = progress_ok ?s2"
      by (intro progress_ok_cong) (simp_all add: 5(1) s1_def)
    ultimately show ?case by simp
  qed
  then show ?thesis by (simp only: res)
qed

lemma progress_resume_generator:
  assumes wb: "well_behaved rm" and pr: "progress_ok s" and nf: "generator s \<noteq> G_finished"
  shows "progress_ok (resume rm Generator s)"
proof -
  obtain cmds gc' g' where
    st: "generate_patients rm (num_patients s) (generator s) (rng s) = ((cmds, gc'), g')"
    by (metis prod.exhaust)
  define s1 where "s1 = s\<lparr>generator := gc', rng := g'\<rparr>"
  have res: "resume rm Generator s = exec_commands Generator cmds s1"
    using st by (simp add: resume_def s1_def)
  have sh: "gen_shape (num_patients s) (generator s) cmds gc'"
    using wb st nf by (rule generate_patients_shape)
  have "progress_ok (exec_commands Generator cmds s1)"
    using sh unfolding gen_shape_def
  proof (elim disjE exE conjE, goal_cases)
    case (1 d)
    with pr show ?case by (simp add: progress_ok_def s1_def)
  next
    case 2
    with pr show ?case by (simp add: progress_ok_def s1_def)
  next
    case (3 i ty d)
    with pr show ?case by (simp add: progress_ok_def s1_def)
  next
    case (4 i ty)
    with pr show ?case by (auto simp: progress_ok_def s1_def)
  qed
  then show ?thesis by (simp only: res)
qed

subsection \<open>One event, and the whole run\<close>

lemma fire_ok:
  assumes wb: "well_behaved rm" and inv: "loop_inv s None h" and pr: "progress_ok s"
    and q: "queue s = (t, pri, i, ev) # q"
  shows "\<exists>s'. fire rm ev (s\<lparr>now := t, queue := q\<rparr>) = Inr s' \<and>
           loop_inv s' None h \<and> progress_ok s' \<and> num_patients s' = num_patients s"
proof -
  define s0 where "s0 = s\<lparr>now := t, queue := q\<rparr>"
  have pr0: "progress_ok s0"
    using pr by (simp add: progress_ok_def s0_def)
  have n0: "num_patients s0 = num_patients s" by (simp add: s0_def)
  have p0: "patients s0 = patients s" by (simp add: s0_def)
  have "\<exists>s'. fire rm ev s0 = Inr s' \<and>
           loop_inv s' None h \<and> progress_ok s' \<and> num_patients s' = num_patients s"
  proof (cases ev)
    case (Resume p)
    show ?thesis
    proof (cases p)
      case Generator
      note q' = q [unfolded Resume Generator]
      have nf: "generator s0 \<noteq> G_finished"
        using pop_generator(1) [OF inv q'] by (simp add: s0_def)
      have "loop_inv (resume rm Generator s0) None h"
        using wb pop_generator(2) [OF inv q', folded s0_def] nf by (rule inv_resume_generator)
      moreover have "progress_ok (resume rm Generator s0)"
        using wb pr0 nf by (rule progress_resume_generator)
      ultimately show ?thesis
        using Resume Generator n0 by (simp add: fire_def)
    next
      case (Patient k)
      note q' = q [unfolded Resume Patient]
      have k: "k < length (patients s0)"
        using pop_patient(1) [OF inv q'] by (simp add: p0)
      have nf: "cont (patients s0 ! k) \<noteq> Finished"
        using pop_patient(2) [OF inv q'] by (simp add: p0)
      have i0: "loop_inv s0 (Some (Patient k)) (held_at (cont (patients s0 ! k)))"
        using pop_patient(3) [OF inv q', folded s0_def] by (simp add: p0)
      have "loop_inv (resume rm (Patient k) s0) None h"
        using wb i0 k nf by (rule inv_resume_patient)
      moreover have "progress_ok (resume rm (Patient k) s0)"
        using wb pr0 k nf by (rule progress_resume_patient)
      ultimately show ?thesis
        using Resume Patient n0 by (simp add: fire_def)
    qed
  next
    case (Released r)
    note q' = q [unfolded Released]
    have "loop_inv (trigger_put r s0) None h"
      using pop_released [OF inv q', folded s0_def] .
    moreover have "progress_ok (trigger_put r s0) = progress_ok s0"
      by (rule progress_ok_cong) simp_all
    ultimately show ?thesis
      using Released pr0 n0 by (simp add: fire_def)
  next
    case Ended
    note q' = q [unfolded Ended]
    have "loop_inv s0 None h"
      using pop_ended [OF inv q', folded s0_def] .
    then show ?thesis
      using Ended pr0 n0 by (simp add: fire_def)
  next
    case (Failed e)
    with pop_failed [OF inv q [unfolded Failed]] show ?thesis by simp
  qed
  then show ?thesis by (simp only: s0_def)
qed

lemma env_run_ok:
  assumes wb: "well_behaved rm" and inv: "loop_inv s None h" and pr: "progress_ok s"
  shows "\<exists>s'. env_run rm s = (Inr (), s') \<and> loop_inv s' None h \<and> progress_ok s' \<and>
           queue s' = [] \<and> num_patients s' = num_patients s"
  using inv pr
proof (induction "weight s" arbitrary: s rule: less_induct)
  case less
  show ?case
  proof (cases "queue s")
    case Nil
    then have "env_run rm s = (Inr (), s)" by (simp add: env_run.simps)
    with less.prems Nil show ?thesis by simp
  next
    case (Cons e q)
    obtain t pri i ev where e: "e = (t, pri, i, ev)" by (cases e) auto
    have qs: "queue s = (t, pri, i, ev) # q" using Cons e by simp
    obtain s1 where f: "fire rm ev (s\<lparr>now := t, queue := q\<rparr>) = Inr s1"
      and i1: "loop_inv s1 None h" and p1: "progress_ok s1"
      and n1: "num_patients s1 = num_patients s"
      using fire_ok [OF wb less.prems qs] by blast
    have "weight (s\<lparr>now := t, queue := q\<rparr>) < weight s"
      using qs by (simp add: weight_def waiting_def)
    with weight_fire [OF f] have lt: "weight s1 < weight s" by simp
    obtain s' where "env_run rm s1 = (Inr (), s')" "loop_inv s' None h" "progress_ok s'"
      "queue s' = []" "num_patients s' = num_patients s1"
      using less.hyps [OF lt i1 p1] by blast
    moreover have "env_run rm s = env_run rm s1"
      using qs f by (subst env_run.simps) simp
    ultimately show ?thesis using n1 by simp
  qed
qed

lemma all_finished:
  assumes inv: "loop_inv s None h" and q: "queue s = []" and k: "k < length (patients s)"
  shows "cont (patients s ! k) = Finished"
proof (rule ccontr)
  assume nf: "cont (patients s ! k) \<noteq> Finished"
  note d = loop_inv_idleD [OF inv]
  have c0: "cnt s ev = 0" for ev using q by (simp add: cnt_def evs_def)
  let ?c = "cont (patients s ! k)"
  have ok: "pat_ok s k" by (rule d(2) [OF k])
  have "requesting ?c \<noteq> None"
    using ok nf c0 by (auto simp: pat_ok_def Let_def)
  then obtain r where req: "requesting ?c = Some r" by auto
  have iq: "in_queue s r (Patient k) = 1"
    using ok req c0 by (simp add: pat_ok_def Let_def)
  then have "put_queue s r \<noteq> []"
    by (auto simp: in_queue_def simp del: count_list_fold)
  with d(4) [of r] have "capacity r \<le> length (users s r)"
    by (simp add: res_ok_def c0)
  moreover have "0 < capacity r" by (cases r) simp_all
  ultimately obtain u where u: "u \<in> set (users s r)"
    by (cases "users s r") auto
  then have pos: "0 < in_users s r u"
    by (simp add: in_users_def count_list_pos_iff del: count_list_fold)
  have "u \<noteq> Generator"
    using pos d(1) by (auto simp: misc_ok_def)
  then obtain k' where k': "u = Patient k'" by (cases u) simp_all
  have lt: "k' < length (patients s)"
  proof (rule ccontr)
    assume "\<not> k' < length (patients s)"
    then have "in_users s r (Patient k') = 0" using d(1) by (simp add: misc_ok_def)
    with pos k' show False by simp
  qed
  have ok': "pat_ok s k'" by (rule d(2) [OF lt])
  let ?c' = "cont (patients s ! k')"
  have held: "held_at ?c' = Some r"
    using ok' pos k' by (auto simp: pat_ok_def Let_def split: if_splits)
  show False
  proof (cases "requesting ?c'")
    case None
    then have "?c' \<noteq> Finished" using held by (auto simp: held_at_def)
    with ok' None c0 show False by (simp add: pat_ok_def Let_def)
  next
    case (Some r')
    then have "r' = r" using held by (simp add: held_at_def)
    with ok' Some c0 have "in_queue s r (Patient k') = 1"
      by (simp add: pat_ok_def Let_def)
    moreover have "in_users s r (Patient k') + in_queue s r (Patient k') = 1"
      using ok' held by (simp add: pat_ok_def Let_def)
    ultimately show False using pos k' by simp
  qed
qed

lemma finished_run:
  assumes inv: "loop_inv s None h" and pr: "progress_ok s" and q: "queue s = []"
  shows "length (stats_patients s) = nat (num_patients s)"
    and "valid_types (stats_patients s)"
proof -
  note d = loop_inv_idleD [OF inv]
  have "cnt s (Resume Generator) = 0" using q by (simp add: cnt_def evs_def)
  with d(3) have "generator s = G_finished" by (simp split: if_splits)
  then have len: "length (patients s) = nat (num_patients s)"
    using pr by (simp add: progress_ok_def)
  have "filter (\<lambda>p. cont p = Finished) (patients s) = patients s"
    using all_finished [OF inv q] by (auto simp: filter_id_conv in_set_conv_nth)
  then show "length (stats_patients s) = nat (num_patients s)"
    using pr len by (simp add: progress_ok_def)
  show "valid_types (stats_patients s)"
    using pr by (simp add: progress_ok_def)
qed

lemma initial_ok:
  "loop_inv (schedule URGENT 0 (Resume Generator) (initial_environment num g)) None h"
  "progress_ok (schedule URGENT 0 (Resume Generator) (initial_environment num g))"
  by (simp_all add: loop_inv_def procs_ok_def misc_ok_def res_ok_def progress_ok_def
      initial_environment_def schedule_def cnt_def evs_def in_users_def in_queue_def
      valid_types_def del: count_list_fold)

lemma simulate_ok:
  assumes "well_behaved rm"
  shows "\<exists>s. simulate rm num w = (Inr (), s) \<and>
           length (stats_patients s) = nat num \<and> valid_types (stats_patients s)"
proof -
  let ?s0 = "schedule URGENT 0 (Resume Generator) (initial_environment num (rnd_seed rm 10))"
  obtain s where r: "env_run rm ?s0 = (Inr (), s)" and i: "loop_inv s None None"
    and p: "progress_ok s" and q: "queue s = []" and n: "num_patients s = num_patients ?s0"
    using env_run_ok [OF assms initial_ok] by blast
  have "num_patients ?s0 = num" by (simp add: initial_environment_def)
  with finished_run [OF i p q] n r show ?thesis
    by (simp add: simulate_def random_seed_def Let_def)
qed

subsection \<open>The whole of \<open>run_simulation\<close>\<close>

lemma save_statistics_ok:
  assumes "writable fs filename" and "build_row res = Inr row"
  shows "\<exists>fs'. save_statistics res filename fs = (Inr (), fs')"
  using assms by (simp add: save_statistics_def Let_def)

lemma run_simulation_total:
  assumes wb: "well_behaved rm" and n: "2 \<le> (case arg of None \<Rightarrow> 250 | Some n \<Rightarrow> n)"
    and wr: "writable (disk w) default_filename"
  shows "\<exists>w1. run_simulation rm arg w = (Inr None, w1)"
proof -
  let ?num = "case arg of None \<Rightarrow> 250 | Some n \<Rightarrow> n"
  obtain s where s: "simulate rm ?num w = (Inr (), s)"
    and len: "length (stats_patients s) = nat ?num" and vt: "valid_types (stats_patients s)"
    using simulate_ok [OF wb] by blast
  have "2 \<le> length (stats_patients s)" using len n by simp
  with vt obtain res where res: "calc_statistics (stats_patients s) = Inr res"
    using calc_statistics_ok by blast
  obtain row where "build_row res = Inr row"
    using build_row_ok [OF res] by blast
  with wr obtain fs where "save_statistics res default_filename (disk w) = (Inr (), fs)"
    using save_statistics_ok by blast
  with s res show ?thesis
    using run_simulation_saved by blast
qed

lemma main_loop_total:
  assumes wb: "well_behaved rm" and wr: "writable (disk w) default_filename"
  shows "\<exists>rows row w2. main_loop rm w = (Inr (), w2) \<and>
           files (disk w2) default_filename = Some (rows @ [row, row])"
proof -
  obtain w1 where r1: "run_simulation rm None w = (Inr None, w1)"
    using run_simulation_total [OF wb _ wr, of None] by auto
  obtain rows row w2 where r2: "run_simulation rm None w1 = (Inr None, w2)"
    and f: "files (disk w2) default_filename = Some (rows @ [row, row])"
    using run_simulation_again [OF r1] by blast
  have "main_loop rm w = (Inr (), w2)"
    using r1 r2 by (simp add: main_loop_def)
  with f show ?thesis by blast
qed

lemma toy_choice: "[1, 2, 3, 4 :: int] ! (x mod 4) \<in> {1, 2, 3, 4}"
proof -
  have "x mod 4 < 4" by simp
  then have "x mod 4 = 0 \<or> x mod 4 = 1 \<or> x mod 4 = 2 \<or> x mod 4 = 3" by arith
  then show ?thesis by auto
qed

lemma toy_well_behaved: "well_behaved toy_random"
  using toy_choice
  by (simp add: well_behaved_def toy_random_def service_params_def)

lemma toy_writable: "writable (disk toy_world) default_filename"
  by (simp add: toy_world_def)

section \<open>The library's triangular distribution\<close>

text \<open>
  The sum of the roots of \<open>a (1 - u)\<close> and \<open>b u\<close> stays below the root of \<open>a + b\<close>,
  except at \<open>u = b / (a + b)\<close>.
\<close>

lemma sqrt_sum_less:
  fixes a b u s :: real
  assumes a: "0 < a" and b: "0 < b" and u0: "0 \<le> u" and u1: "u \<le> 1"
    and s: "0 < s" "s * s = a + b" and ne: "u * (a + b) \<noteq> b"
  shows "sqrt (a * (1 - u)) + sqrt (b * u) < s"
proof -
  let ?p = "sqrt (a * (1 - u))" and ?q = "sqrt (b * u)"
  have p0: "0 \<le> a * (1 - u)" and q0: "0 \<le> b * u" using a b u0 u1 by simp_all
  have pp: "?p * ?p = a * (1 - u)" and qq: "?q * ?q = b * u"
    using p0 q0 by simp_all
  have pq: "?p * ?q = sqrt (a * (1 - u) * (b * u))" by (simp add: real_sqrt_mult)
  have w0: "0 \<le> a * u + b * (1 - u)" using a b u0 u1 by simp
  have lt: "(a * (1 - u) * (b * u)) * 4 < (a * u + b * (1 - u)) * (a * u + b * (1 - u))"
  proof -
    have "(a * u + b * (1 - u)) * (a * u + b * (1 - u)) - (a * (1 - u) * (b * u)) * 4
        = (u * (a + b) - b) * (u * (a + b) - b)"
      by (simp add: algebra_simps)
    moreover have "0 < (u * (a + b) - b) * (u * (a + b) - b)"
      using ne by (simp add: zero_less_mult_iff) linarith
    ultimately show ?thesis by linarith
  qed
  have "sqrt ((a * (1 - u) * (b * u)) * 4) < sqrt ((a * u + b * (1 - u)) * (a * u + b * (1 - u)))"
    using lt by (simp only: real_sqrt_less_iff)
  then have "sqrt (a * (1 - u) * (b * u)) * 2 < a * u + b * (1 - u)"
    using w0 by (simp add: real_sqrt_mult)
  then have sq: "(?p + ?q) * (?p + ?q) < s * s"
    using pp qq pq s(2) by (simp add: algebra_simps)
  show ?thesis
  proof (rule ccontr)
    assume "\<not> ?thesis"
    then have "s \<le> ?p + ?q" by simp
    then have "s * s \<le> (?p + ?q) * (?p + ?q)"
      using s(1) by (intro mult_mono) simp_all
    with sq show False by simp
  qed
qed


lemma scaled_sqrt:
  fixes k v :: real
  assumes "0 \<le> k"
  shows "k * sqrt v = sqrt (k * k * v)"
  using assms by (simp add: real_sqrt_mult)

text \<open>The call with the mode in the place of the upper limit.\<close>

lemma random_triangular_swapped:
  assumes lm: "low < mode" and mh: "mode < high"
    and draw: "rnd_random rm g = (u, g')" and u0: "0 \<le> u" and u1: "u < 1"
  shows "random_triangular rm low mode high g
           = (Inr (low + sqrt (u * ((high - low) * (mode - low)))), g')"
proof -
  let ?c = "(high - low) / (mode - low)"
  have d: "0 < mode - low" and e: "0 < high - low" using lm mh by simp_all
  have c1: "1 < ?c" using lm mh d by simp
  then have nu: "\<not> ?c < u" using u1 by simp
  have c0: "0 \<le> u * ?c" using u0 d e by simp
  have "(mode - low) * sqrt (u * ?c) = sqrt ((mode - low) * (mode - low) * (u * ?c))"
    using d by (intro scaled_sqrt) simp
  also have "(mode - low) * (mode - low) * (u * ?c) = u * ((high - low) * (mode - low))"
    using d by simp
  finally have v: "(mode - low) * sqrt (u * ?c) = sqrt (u * ((high - low) * (mode - low)))" .
  have "random_triangular rm low mode high g = (Inr (low + (mode - low) * sqrt (u * ?c)), g')"
    using d nu c0 by (simp add: random_triangular_def draw py_div_def math_sqrt_def)
  then show ?thesis by (simp only: v)
qed

text \<open>The call with the limits and the mode in their places.\<close>

lemma random_triangular_low_part:
  assumes lm: "low < mode" and mh: "mode < high"
    and draw: "rnd_random rm g = (u, g')" and u0: "0 \<le> u"
    and uc: "u \<le> (mode - low) / (high - low)"
  shows "random_triangular rm low high mode g
           = (Inr (low + sqrt (u * ((high - low) * (mode - low)))), g')"
proof -
  let ?c = "(mode - low) / (high - low)"
  have d: "0 < mode - low" and e: "0 < high - low" using lm mh by simp_all
  have nu: "\<not> ?c < u" using uc by simp
  have c0: "0 \<le> u * ?c" using u0 d e by simp
  have "(high - low) * sqrt (u * ?c) = sqrt ((high - low) * (high - low) * (u * ?c))"
    using e by (intro scaled_sqrt) simp
  also have "(high - low) * (high - low) * (u * ?c) = u * ((high - low) * (mode - low))"
    using e by simp
  finally have v: "(high - low) * sqrt (u * ?c) = sqrt (u * ((high - low) * (mode - low)))" .
  have "random_triangular rm low high mode g = (Inr (low + (high - low) * sqrt (u * ?c)), g')"
    using e nu c0 by (simp add: random_triangular_def draw py_div_def math_sqrt_def)
  then show ?thesis by (simp only: v)
qed

lemma random_triangular_high_part:
  assumes lm: "low < mode" and mh: "mode < high"
    and draw: "rnd_random rm g = (u, g')" and u1: "u < 1"
    and uc: "(mode - low) / (high - low) < u"
  shows "random_triangular rm low high mode g
           = (Inr (high - sqrt ((1 - u) * ((high - low) * (high - mode)))), g')"
proof -
  let ?c = "(mode - low) / (high - low)"
  have d: "0 < high - mode" and e: "0 < high - low" using lm mh by simp_all
  have c1: "1 - ?c = (high - mode) / (high - low)"
    using e by (simp add: field_simps)
  have c0: "0 \<le> (1 - u) * (1 - ?c)" using u1 d e by (simp add: c1)
  have "(high - low) * sqrt ((1 - u) * (1 - ?c))
      = sqrt ((high - low) * (high - low) * ((1 - u) * (1 - ?c)))"
    using e by (intro scaled_sqrt) simp
  also have "(high - low) * (high - low) * ((1 - u) * (1 - ?c))
      = (1 - u) * ((high - low) * (high - mode))"
    using e by (simp add: c1)
  finally have v: "(high - low) * sqrt ((1 - u) * (1 - ?c))
      = sqrt ((1 - u) * ((high - low) * (high - mode)))" .
  have "random_triangular rm low high mode g
      = (Inr (high + (low - high) * sqrt ((1 - u) * (1 - ?c))), g')"
    using e uc c0 by (simp add: random_triangular_def draw py_div_def math_sqrt_def)
  moreover have "high + (low - high) * sqrt ((1 - u) * (1 - ?c))
      = high - (high - low) * sqrt ((1 - u) * (1 - ?c))"
    by (simp add: algebra_simps)
  ultimately show ?thesis by (simp only: v)
qed

text \<open>
  For the same number \<open>u\<close>, the call with the mode in the place of the upper limit
  returns less than the call with the arguments in their places, as soon as \<open>u\<close>
  is above the mode's share of the range.
\<close>

lemma swapped_less:
  fixes low mode high u :: real
  assumes lm: "low < mode" and mh: "mode < high" and u0: "0 \<le> u" and u1: "u < 1"
    and uc: "(mode - low) / (high - low) < u"
  shows "low + sqrt (u * ((high - low) * (mode - low)))
           < high - sqrt ((1 - u) * ((high - low) * (high - mode)))"
proof -
  let ?a = "(high - low) * (high - mode)" and ?b = "(high - low) * (mode - low)"
  have e: "0 < high - low" using lm mh by simp
  have ne: "u * (?a + ?b) \<noteq> ?b"
  proof
    assume "u * (?a + ?b) = ?b"
    then have "u * ((high - low) * (high - low)) = (high - low) * (mode - low)"
      by (simp add: algebra_simps)
    then have "u * (high - low) = mode - low" using e by simp
    then have "u = (mode - low) / (high - low)" using e by (simp add: field_simps)
    with uc show False by simp
  qed
  have a: "0 < ?a" and b: "0 < ?b" using lm mh e by simp_all
  have s: "(high - low) * (high - low) = ?a + ?b" by (simp add: algebra_simps)
  have "sqrt (?a * (1 - u)) + sqrt (?b * u) < high - low"
    using a b u0 _ e s ne by (rule sqrt_sum_less) (use u1 in simp)
  then show ?thesis by (simp add: mult.commute)
qed

lemma swapped_bound:
  fixes low mode high u k :: real
  assumes u0: "0 \<le> u" and u1: "u < 1" and b: "0 < b" and k: "0 < k" "b < k * k"
  shows "low + sqrt (u * b) < low + k"
proof -
  have "u * b \<le> 1 * b" using u1 b by (intro mult_right_mono) simp_all
  then have "u * b < k * k" using k(2) by simp
  then have "sqrt (u * b) < sqrt (k * k)" by (simp only: real_sqrt_less_iff)
  then show ?thesis using k(1) by simp
qed


lemma library_call:
  assumes "library_triangular rm" and "random_triangular rm low high mode g = (Inr x, g')"
  shows "rnd_triangular rm low high mode g = (x, g')"
  using assms by (simp add: library_triangular_def)

lemma toy_library_random: "rnd_random toy_library = rnd_random toy_random"
  by (simp add: toy_library_def)

lemma toy_library_triangular: "random_triangular toy_library = random_triangular toy_random"
  by (intro ext) (simp add: random_triangular_def toy_library_random)

lemma toy_library_ok: "library_triangular toy_library"
  unfolding library_triangular_def
proof (intro allI impI)
  fix low high mode :: real and g g' :: nat and x :: real
  assume "random_triangular toy_library low high mode g = (Inr x, g')"
  then have "random_triangular toy_random low high mode g = (Inr x, g')"
    by (simp only: toy_library_triangular)
  then show "rnd_triangular toy_library low high mode g = (x, g')"
    by (simp add: toy_library_def)
qed

lemma toy_library_draw: "rnd_random toy_library 1 = (7 / 10, 2)"
  by (simp add: toy_library_def toy_random_def)

lemma toy_library_ward1:
  "random_triangular toy_library (3 / 2) (16 / 5) 5 1 = (Inr (3 / 2 + sqrt (833 / 200)), 2)"
  using random_triangular_swapped [OF _ _ toy_library_draw, of "3 / 2" "16 / 5" 5] by simp

lemma toy_library_ward1_meant:
  "random_triangular toy_library (3 / 2) 5 (16 / 5) 1 = (Inr (5 - sqrt (189 / 100)), 2)"
  using random_triangular_high_part [OF _ _ toy_library_draw, of "3 / 2" "16 / 5" 5] by simp

lemma toy_library_ward2:
  "random_triangular toy_library (14 / 5) (41 / 10) (63 / 10) 1
     = (Inr (14 / 5 + sqrt (637 / 200)), 2)"
  using random_triangular_swapped [OF _ _ toy_library_draw, of "14 / 5" "41 / 10" "63 / 10"]
  by simp

lemma toy_library_ward2_meant:
  "random_triangular toy_library (14 / 5) (63 / 10) (41 / 10) 1
     = (Inr (63 / 10 - sqrt (231 / 100)), 2)"
  using random_triangular_high_part [OF _ _ toy_library_draw, of "14 / 5" "41 / 10" "63 / 10"]
  by simp

section \<open>The claims\<close>

text \<open>
  Claim C1. After the registration desk is released (the process is resumed at the end
  of its registration time), a patient whose clock is below 30 issues no ward request:
  it is scheduled to be resumed at time 30 exactly, and at that resumption it requests
  its casualty ward. A patient whose clock is at 30 or later requests its ward in the
  same step, and nothing is scheduled for a later time.
\<close>

theorem patient_waits_for_doctors:
  assumes "k < length (patients s)" and "cont (patients s ! k) = Reg_held"
  shows "(now s < 30 \<longrightarrow>
           (\<exists>cw. cont (patients (resume rm (Patient k) s) ! k) = Doctors_wait cw \<and>
              (30, NORMAL, Suc (eid s), Resume (Patient k)) \<in> set (queue (resume rm (Patient k) s)) \<and>
              put_queue (resume rm (Patient k) s) = put_queue s \<and>
              users (resume rm (Patient k) s) cw = users s cw \<and>
              (\<forall>t g. fst (patient_step rm t (patients (resume rm (Patient k) s) ! k) g)
                       = ([Request cw], Ward_requested cw)))) \<and>
         (30 \<le> now s \<longrightarrow>
           (\<exists>cw. cont (patients (resume rm (Patient k) s) ! k) = Ward_requested cw \<and>
              (Patient k \<in> set (put_queue (resume rm (Patient k) s) cw) \<or>
               Patient k \<in> set (users (resume rm (Patient k) s) cw)) \<and>
              (\<forall>e \<in> set (queue (resume rm (Patient k) s)). e \<in> set (queue s) \<or> fst e = now s)))"
proof -
  let ?p = "patients s ! k"
  let ?cw = "if fst (rnd_random rm (rng s)) < 0.6 then CW1 else CW2"
  let ?g = "snd (rnd_random rm (rng s))"
  have early: ?thesis if lt: "now s < 30"
  proof -
    have res: "resume rm (Patient k) s =
        exec_commands (Patient k) [Release Registration, Timeout (30 - now s)]
          (s\<lparr>patients := (patients s)[k := ?p\<lparr>cont := Doctors_wait ?cw\<rparr>], rng := ?g\<rparr>)"
      using assms lt
      by (simp add: resume_def patient_resume_def patient_step_reg_held Let_def)
    have "cont (patients (resume rm (Patient k) s) ! k) = Doctors_wait ?cw"
      using assms(1) by (simp add: res schedule_def)
    moreover have "(30, NORMAL, Suc (eid s), Resume (Patient k)) \<in> set (queue (resume rm (Patient k) s))"
      by (simp add: res schedule_def set_enqueue)
    moreover have "put_queue (resume rm (Patient k) s) = put_queue s"
      by (simp add: res schedule_def)
    moreover have "users (resume rm (Patient k) s) ?cw = users s ?cw"
      by (simp add: res schedule_def)
    moreover have "fst (patient_step rm t (patients (resume rm (Patient k) s) ! k) g)
        = ([Request ?cw], Ward_requested ?cw)" for t g
      using assms(1) by (simp add: res schedule_def patient_step_def)
    ultimately show ?thesis using lt by auto
  qed
  have late: ?thesis if ge: "30 \<le> now s"
  proof -
    let ?s0 = "s\<lparr>patients := (patients s)[k := ?p\<lparr>cont := Ward_requested ?cw\<rparr>], rng := ?g\<rparr>"
    let ?s1 = "exec_command (Patient k) (Release Registration) ?s0"
    let ?s2 = "?s1\<lparr>put_queue := (put_queue ?s1)(?cw := put_queue ?s1 ?cw @ [Patient k])\<rparr>"
    have res: "resume rm (Patient k) s = trigger_put ?cw ?s2"
      using assms ge
      by (simp add: resume_def patient_resume_def patient_step_reg_held Let_def)
    have "cont (patients (resume rm (Patient k) s) ! k) = Ward_requested ?cw"
      using assms(1) by (simp add: res patients_trigger_put schedule_def)
    moreover have "Patient k \<in> set (put_queue ?s2 ?cw)" by simp
    then have "Patient k \<in> set (put_queue (resume rm (Patient k) s) ?cw) \<or>
        Patient k \<in> set (users (resume rm (Patient k) s) ?cw)"
      unfolding res by (rule trigger_put_keeps)
    moreover have "e \<in> set (queue s) \<or> fst e = now s"
      if "e \<in> set (queue (resume rm (Patient k) s))" for e
    proof -
      from that have "e \<in> set (queue ?s2) \<or> fst e = now ?s2"
        unfolding res by (rule trigger_put_queue)
      then show ?thesis by (auto simp: schedule_def set_enqueue)
    qed
    ultimately show ?thesis using ge by auto
  qed
  show ?thesis
  proof (cases "now s < 30")
    case True
    then show ?thesis by (rule early)
  next
    case False
    then have "30 \<le> now s" by simp
    then show ?thesis by (rule late)
  qed
qed

text \<open>
  The two cases on a patient that arrived at time 10 and is resumed at 10.5, and on one
  whose clock reads 40.
\<close>

theorem patient_waits_for_doctors_witness:
  "0 < length (patients (registered_env (21 / 2))) \<and>
   cont (patients (registered_env (21 / 2)) ! 0) = Reg_held \<and>
   now (registered_env (21 / 2)) < 30 \<and>
   (30, NORMAL, 6, Resume (Patient 0))
     \<in> set (queue (resume toy_random (Patient 0) (registered_env (21 / 2)))) \<and>
   put_queue (resume toy_random (Patient 0) (registered_env (21 / 2)))
     = put_queue (registered_env (21 / 2)) \<and>
   0 < length (patients (registered_env 40)) \<and>
   cont (patients (registered_env 40) ! 0) = Reg_held \<and>
   30 \<le> now (registered_env 40) \<and>
   cont (patients (resume toy_random (Patient 0) (registered_env 40)) ! 0) = Ward_requested CW1 \<and>
   users (resume toy_random (Patient 0) (registered_env 40)) CW1 = [Patient 0] \<and>
   queue (resume toy_random (Patient 0) (registered_env 40)) =
     [(40, NORMAL, 5, Released Registration), (40, NORMAL, 6, Resume (Patient 0))]"
  using patient_waits_for_doctors [of 0 "registered_env (21 / 2)" toy_random]
    patient_waits_for_doctors [of 0 "registered_env 40" toy_random]
  by (auto simp: registered_env_def resume_def patient_resume_def patient_step_def
      toy_random_def trigger_put_def schedule_def NORMAL_def)

text \<open>
  Claim C2. For a record collection with at least two patients, all of a known type,
  \<open>calc_statistics\<close> returns the arithmetic mean of the total times as overall mean
  and, as standard deviation, the square root of the sum of the squared differences to
  that mean divided by \<open>n - 1\<close>.
\<close>

theorem calc_statistics_sample_sd:
  assumes "valid_types stats" and "2 \<le> length stats"
  shows "\<exists>res. calc_statistics stats = Inr res \<and>
     overall_avg_time res = sum_list (map total_time stats) / real (length stats) \<and>
     standard_deviation res =
       sqrt (sum_list (map (\<lambda>p. (total_time p - overall_avg_time res)\<^sup>2) stats)
             / (real (length stats) - 1))"
  using calc_statistics_ok [OF assms] by auto

text \<open>For the total times 10, 20 and 30 the mean is 20 and the standard deviation 10.\<close>

theorem calc_statistics_sample_sd_witness:
  "valid_types three_records \<and> 2 \<le> length three_records \<and>
   map total_time three_records = [10, 20, 30] \<and>
   (\<exists>res. calc_statistics three_records = Inr res \<and>
       overall_avg_time res = 20 \<and> standard_deviation res = 10)"
  using calc_statistics_sample_sd [of three_records]
  by (auto simp: valid_types_def three_records_def sqrt_100)

text \<open>
  Claim C3. On a collection with no patient the claim asks for a degenerate-input
  error in place of a division by zero. The function divides by zero: the overall
  mean \<open>sum(all_times) / total_patients\<close> raises ZeroDivisionError.
\<close>

theorem calc_statistics_empty: "calc_statistics [] = Inl ZeroDivisionError"
  by (simp add: calc_statistics_def per_type_statistics_def initial_types_def
      type_entry_of_def py_div_def)

text \<open>
  Claim C4. When all records have a known type, the loop over the types never raises:
  for each of the four types it reports count 0 and mean 0 when the group is empty, and
  the size of the group and the arithmetic mean of its total times otherwise. This is
  the \<open>types\<close> entry of every result that \<open>calc_statistics\<close> returns.
\<close>

theorem per_type_statistics_groups:
  assumes "valid_types stats" and "ty \<in> {1, 2, 3, 4}"
  shows "\<exists>tr. per_type_statistics stats = Inr tr \<and>
     map_of tr ty =
       Some (if times_of_type ty stats = [] then \<lparr>count = 0, avg_time = 0\<rparr>
             else \<lparr>count = int (length (times_of_type ty stats)),
                   avg_time = sum_list (times_of_type ty stats)
                              / real (length (times_of_type ty stats))\<rparr>) \<and>
     (\<forall>res. calc_statistics stats = Inr res \<longrightarrow> types res = tr)"
proof -
  obtain tr where tr: "per_type_statistics stats = Inr tr"
    and look: "\<forall>ty \<in> {1, 2, 3, 4}. map_of tr ty = Some (projr (type_entry_of (times_of_type ty stats)))"
    using per_type_statistics_ok [OF assms(1)] by blast
  have "types res = tr" if "calc_statistics stats = Inr res" for res
    using that tr
    by (auto simp: calc_statistics_def Let_def split: sum.splits)
  moreover have "map_of tr ty = Some (projr (type_entry_of (times_of_type ty stats)))"
    using look assms(2) by blast
  ultimately show ?thesis
    using tr by (simp add: type_entry_of_ok)
qed

text \<open>Type 1 has two records, type 2 has none.\<close>

theorem per_type_statistics_groups_witness:
  "valid_types three_records \<and>
   times_of_type 1 three_records = [10, 20] \<and> times_of_type 2 three_records = [] \<and>
   calc_statistics three_records = Inr three_results \<and>
   per_type_statistics three_records = Inr (types three_results) \<and>
   map_of (types three_results) 1 = Some \<lparr>count = 2, avg_time = 15\<rparr> \<and>
   map_of (types three_results) 2 = Some \<lparr>count = 0, avg_time = 0\<rparr>"
  using per_type_statistics_groups [of three_records 1]
    per_type_statistics_groups [of three_records 2]
    calc_statistics_three_records
  by (auto simp: valid_types_def times_of_type_def three_records_def three_results_def)

text \<open>
  Claim C5. The claim says that \<open>run_simulation\<close> takes an optional seed and returns
  a result. On the code a call with a seed raises TypeError, and a successful call
  returns \<open>None\<close>.
\<close>

theorem run_simulation_no_result:
  "fst (call_run_simulation toy_random [3] [] toy_world) = Inr None \<and>
   fst (call_run_simulation toy_random [3] [(''seed'', 42)] toy_world) = Inl TypeError \<and>
   fst (call_run_simulation toy_random [3, 42] [] toy_world) = Inl TypeError"
  using toy_run_3 by (simp add: call_run_simulation_def)

text \<open>
  Claim C5, as the code has it. \<open>run_simulation\<close> takes the patient count alone, 250
  when it is left out, and seeds the generator with 10 whatever the state of the world.
  It returns no result: whenever it returns, the value is \<open>None\<close>, the statistics of
  the run were computed by \<open>calc_statistics\<close> and \<open>save_statistics\<close> has written them
  to the results file. It does return when the random module is well-behaved, there are
  at least two patients and the results file can be opened.
\<close>

theorem run_simulation_returns_none:
  "call_run_simulation rm [] [] w = run_simulation rm (Some 250) w \<and>
   call_run_simulation rm [n] [] w = run_simulation rm (Some n) w \<and>
   simulate rm n w =
     env_run rm (schedule URGENT 0 (Resume Generator) (initial_environment n (rnd_seed rm 10))) \<and>
   (\<forall>v w1. run_simulation rm (Some n) w = (Inr v, w1) \<longrightarrow>
      v = None \<and>
      (\<exists>s res. simulate rm n w = (Inr (), s) \<and>
         calc_statistics (stats_patients s) = Inr res \<and>
         save_statistics res default_filename (disk w) = (Inr (), disk w1))) \<and>
   (well_behaved rm \<and> 2 \<le> n \<and> writable (disk w) default_filename \<longrightarrow>
      (\<exists>w1. run_simulation rm (Some n) w = (Inr None, w1)))"
proof -
  have "v = None \<and>
      (\<exists>s res. simulate rm n w = (Inr (), s) \<and>
         calc_statistics (stats_patients s) = Inr res \<and>
         save_statistics res default_filename (disk w) = (Inr (), disk w1))"
    if "run_simulation rm (Some n) w = (Inr v, w1)" for v w1
    using run_simulation_success [OF that] by auto
  moreover have "\<exists>w1. run_simulation rm (Some n) w = (Inr None, w1)"
    if "well_behaved rm" "2 \<le> n" "writable (disk w) default_filename"
    using run_simulation_total [of rm "Some n" w] that by simp
  ultimately show ?thesis
    by (simp add: call_run_simulation_def run_simulation_def simulate_def random_seed_def Let_def)
qed

text \<open>A run with 250 patients on the small random module.\<close>

theorem run_simulation_returns_none_witness:
  "well_behaved toy_random \<and> (2 :: int) \<le> 250 \<and>
   writable (disk toy_world) default_filename \<and>
   fst (run_simulation toy_random (Some 250) toy_world) = Inr None \<and>
   (\<exists>s res. simulate toy_random 250 toy_world = (Inr (), s) \<and>
      calc_statistics (stats_patients s) = Inr res \<and>
      save_statistics res default_filename (disk toy_world)
        = (Inr (), disk (snd (run_simulation toy_random (Some 250) toy_world))))"
proof -
  note th = run_simulation_returns_none [where rm = toy_random and w = toy_world and n = 250]
  have "\<exists>w1. run_simulation toy_random (Some 250) toy_world = (Inr None, w1)"
    using th [THEN conjunct2, THEN conjunct2, THEN conjunct2, THEN conjunct2]
      toy_well_behaved toy_writable by simp
  then obtain w1 where w1: "run_simulation toy_random (Some 250) toy_world = (Inr None, w1)" ..
  have "\<exists>s res. simulate toy_random 250 toy_world = (Inr (), s) \<and>
      calc_statistics (stats_patients s) = Inr res \<and>
      save_statistics res default_filename (disk toy_world) = (Inr (), disk w1)"
    using th [THEN conjunct2, THEN conjunct2, THEN conjunct2, THEN conjunct1, rule_format, OF w1]
    by (rule conjunct2)
  with w1 toy_well_behaved toy_writable show ?thesis by simp
qed

text \<open>
  Claim C6. Two runs with the same patient count, from any two worlds (so also one
  after the other), record the same patients with the same total times in the same
  order, end in the same way and have the same statistics. The seed is the same in
  every run: it is the constant 10.
\<close>

theorem simulation_deterministic:
  "stats_patients (snd (simulate rm num w)) = stats_patients (snd (simulate rm num w')) \<and>
   fst (simulate rm num w) = fst (simulate rm num w') \<and>
   calc_statistics (stats_patients (snd (simulate rm num w)))
     = calc_statistics (stats_patients (snd (simulate rm num w')))"
  by (simp add: simulate_def random_seed_def Let_def)

text \<open>
  Claim C7. \<open>get_cw_time\<close> hands 1.5, 3.2, 5.0 for ward 1 and 2.8, 4.1, 6.3 for ward 2
  (when it is not also ward 1) through \<open>triangular_dist\<close> to \<open>random.triangular\<close>,
  whose parameters are low, high and mode: the mode arrives as the upper limit and the
  maximum as the mode. With the library's \<open>triangular\<close> and a number \<open>u\<close> of
  \<open>random()\<close> in the range from 0 to 1, the time for ward 1 is the library's value
  for low 1.5, high 3.2, mode 5.0. It lies between 1.5 and 3.94. It is the value for
  minimum 1.5, mode 3.2 and maximum 5.0 as long as \<open>u\<close> is at most 17/35, and
  strictly less than that value above. The same holds for ward 2 with 2.8, 4.94 and
  13/35. For any other resource the result is 0, without a draw.
\<close>

theorem get_cw_time_mode_as_limit:
  assumes lib: "library_triangular rm"
    and draw: "rnd_random rm g = (u, g')" and u0: "0 \<le> u" and u1: "u < 1"
  shows
    "(\<exists>x y. get_cw_time rm cw1 cw2 cw1 g = (x, g') \<and>
        random_triangular rm 1.5 3.2 5.0 g = (Inr x, g') \<and>
        random_triangular rm 1.5 5.0 3.2 g = (Inr y, g') \<and>
        1.5 \<le> x \<and> x < 3.94 \<and> (u \<le> 17 / 35 \<longrightarrow> x = y) \<and> (17 / 35 < u \<longrightarrow> x < y)) \<and>
     (cw2 \<noteq> cw1 \<longrightarrow>
       (\<exists>x y. get_cw_time rm cw1 cw2 cw2 g = (x, g') \<and>
          random_triangular rm 2.8 4.1 6.3 g = (Inr x, g') \<and>
          random_triangular rm 2.8 6.3 4.1 g = (Inr y, g') \<and>
          2.8 \<le> x \<and> x < 4.94 \<and> (u \<le> 13 / 35 \<longrightarrow> x = y) \<and> (13 / 35 < u \<longrightarrow> x < y))) \<and>
     (cw \<noteq> cw1 \<and> cw \<noteq> cw2 \<longrightarrow> get_cw_time rm cw1 cw2 cw g = (0, g))"
proof (intro conjI impI)
  let ?x = "3 / 2 + sqrt (u * ((5 - 3 / 2) * (16 / 5 - 3 / 2)))"
  let ?y = "if u \<le> 17 / 35 then ?x else 5 - sqrt ((1 - u) * ((5 - 3 / 2) * (5 - 16 / 5)))"
  have sw: "random_triangular rm (3 / 2) (16 / 5) 5 g = (Inr ?x, g')"
    using draw u0 u1 by (intro random_triangular_swapped) simp_all
  have cw: "get_cw_time rm cw1 cw2 cw1 g = (?x, g')"
    using library_call [OF lib sw] by (simp add: get_cw_time_def triangular_dist_def)
  have it: "random_triangular rm (3 / 2) 5 (16 / 5) g = (Inr ?y, g')"
  proof (cases "u \<le> 17 / 35")
    case True
    then have "random_triangular rm (3 / 2) 5 (16 / 5) g = (Inr ?x, g')"
      using draw u0 by (intro random_triangular_low_part) simp_all
    then show ?thesis using True by simp
  next
    case False
    then have "random_triangular rm (3 / 2) 5 (16 / 5) g
        = (Inr (5 - sqrt ((1 - u) * ((5 - 3 / 2) * (5 - 16 / 5)))), g')"
      using draw u1 by (intro random_triangular_high_part) simp_all
    then show ?thesis using False by simp
  qed
  have lo: "3 / 2 \<le> ?x" using u0 by simp
  have hi: "?x < 3 / 2 + 244 / 100" using u0 u1 by (intro swapped_bound) simp_all
  have less: "17 / 35 < u \<Longrightarrow> ?x < ?y"
    using swapped_less [of "3 / 2" "16 / 5" 5 u] u0 u1 by simp
  show "\<exists>x y. get_cw_time rm cw1 cw2 cw1 g = (x, g') \<and>
        random_triangular rm 1.5 3.2 5.0 g = (Inr x, g') \<and>
        random_triangular rm 1.5 5.0 3.2 g = (Inr y, g') \<and>
        1.5 \<le> x \<and> x < 3.94 \<and> (u \<le> 17 / 35 \<longrightarrow> x = y) \<and> (17 / 35 < u \<longrightarrow> x < y)"
  proof (intro exI conjI impI)
    show "get_cw_time rm cw1 cw2 cw1 g = (?x, g')" by (rule cw)
    show "random_triangular rm 1.5 3.2 5.0 g = (Inr ?x, g')" using sw by simp
    show "random_triangular rm 1.5 5.0 3.2 g = (Inr ?y, g')" using it by simp
    show "1.5 \<le> ?x" using lo by simp
    show "?x < 3.94" using hi by simp
    show "?x = ?y" if "u \<le> 17 / 35" using that by simp
    show "?x < ?y" if "17 / 35 < u" using less that by simp
  qed
next
  assume ne: "cw2 \<noteq> cw1"
  let ?x = "14 / 5 + sqrt (u * ((63 / 10 - 14 / 5) * (41 / 10 - 14 / 5)))"
  let ?y = "if u \<le> 13 / 35 then ?x
            else 63 / 10 - sqrt ((1 - u) * ((63 / 10 - 14 / 5) * (63 / 10 - 41 / 10)))"
  have sw: "random_triangular rm (14 / 5) (41 / 10) (63 / 10) g = (Inr ?x, g')"
    using draw u0 u1 by (intro random_triangular_swapped) simp_all
  have cw: "get_cw_time rm cw1 cw2 cw2 g = (?x, g')"
    using library_call [OF lib sw] ne by (simp add: get_cw_time_def triangular_dist_def)
  have it: "random_triangular rm (14 / 5) (63 / 10) (41 / 10) g = (Inr ?y, g')"
  proof (cases "u \<le> 13 / 35")
    case True
    then have "random_triangular rm (14 / 5) (63 / 10) (41 / 10) g = (Inr ?x, g')"
      using draw u0 by (intro random_triangular_low_part) simp_all
    then show ?thesis using True by simp
  next
    case False
    then have "random_triangular rm (14 / 5) (63 / 10) (41 / 10) g
        = (Inr (63 / 10 - sqrt ((1 - u) * ((63 / 10 - 14 / 5) * (63 / 10 - 41 / 10)))), g')"
      using draw u1 by (intro random_triangular_high_part) simp_all
    then show ?thesis using False by simp
  qed
  have lo: "14 / 5 \<le> ?x" using u0 by simp
  have hi: "?x < 14 / 5 + 214 / 100" using u0 u1 by (intro swapped_bound) simp_all
  have less: "13 / 35 < u \<Longrightarrow> ?x < ?y"
    using swapped_less [of "14 / 5" "41 / 10" "63 / 10" u] u0 u1 by simp
  show "\<exists>x y. get_cw_time rm cw1 cw2 cw2 g = (x, g') \<and>
          random_triangular rm 2.8 4.1 6.3 g = (Inr x, g') \<and>
          random_triangular rm 2.8 6.3 4.1 g = (Inr y, g') \<and>
          2.8 \<le> x \<and> x < 4.94 \<and> (u \<le> 13 / 35 \<longrightarrow> x = y) \<and> (13 / 35 < u \<longrightarrow> x < y)"
  proof (intro exI conjI impI)
    show "get_cw_time rm cw1 cw2 cw2 g = (?x, g')" by (rule cw)
    show "random_triangular rm 2.8 4.1 6.3 g = (Inr ?x, g')" using sw by simp
    show "random_triangular rm 2.8 6.3 4.1 g = (Inr ?y, g')" using it by simp
    show "2.8 \<le> ?x" using lo by simp
    show "?x < 4.94" using hi by simp
    show "?x = ?y" if "u \<le> 13 / 35" using that by simp
    show "?x < ?y" if "13 / 35 < u" using less that by simp
  qed
next
  assume "cw \<noteq> cw1 \<and> cw \<noteq> cw2"
  then show "get_cw_time rm cw1 cw2 cw g = (0, g)" by (simp add: get_cw_time_def)
qed

text \<open>
  Ward 1, ward 2 and the X-ray unit, when \<open>random()\<close> returns 0.7: the time is about
  3.54 where minimum 1.5, mode 3.2, maximum 5.0 give about 3.63, and about 4.58 where
  minimum 2.8, mode 4.1, maximum 6.3 give about 4.78.
\<close>

theorem get_cw_time_mode_as_limit_witness:
  "library_triangular toy_library \<and> rnd_random toy_library 1 = (7 / 10, 2) \<and>
   get_cw_time toy_library CW1 CW2 CW1 1 = (3 / 2 + sqrt (833 / 200), 2) \<and>
   random_triangular toy_library 1.5 5.0 3.2 1 = (Inr (5 - sqrt (189 / 100)), 2) \<and>
   3 / 2 + sqrt (833 / 200) < 5 - sqrt (189 / 100) \<and>
   CW2 \<noteq> CW1 \<and>
   get_cw_time toy_library CW1 CW2 CW2 1 = (14 / 5 + sqrt (637 / 200), 2) \<and>
   random_triangular toy_library 2.8 6.3 4.1 1 = (Inr (63 / 10 - sqrt (231 / 100)), 2) \<and>
   14 / 5 + sqrt (637 / 200) < 63 / 10 - sqrt (231 / 100) \<and>
   X_ray \<noteq> CW1 \<and> X_ray \<noteq> CW2 \<and> get_cw_time toy_library CW1 CW2 X_ray 1 = (0, 1)"
proof -
  have th:
    "(\<exists>x y. get_cw_time toy_library CW1 CW2 CW1 1 = (x, 2) \<and>
        random_triangular toy_library (3 / 2) (16 / 5) 5 1 = (Inr x, 2) \<and>
        random_triangular toy_library (3 / 2) 5 (16 / 5) 1 = (Inr y, 2) \<and> x < y) \<and>
     (\<exists>x y. get_cw_time toy_library CW1 CW2 CW2 1 = (x, 2) \<and>
        random_triangular toy_library (14 / 5) (41 / 10) (63 / 10) 1 = (Inr x, 2) \<and>
        random_triangular toy_library (14 / 5) (63 / 10) (41 / 10) 1 = (Inr y, 2) \<and> x < y) \<and>
     get_cw_time toy_library CW1 CW2 X_ray 1 = (0, 1)"
    using get_cw_time_mode_as_limit [OF toy_library_ok toy_library_draw, of CW1 CW2 X_ray]
    by simp blast
  from th obtain x y where
      a: "get_cw_time toy_library CW1 CW2 CW1 1 = (x, 2)"
      and ax: "random_triangular toy_library (3 / 2) (16 / 5) 5 1 = (Inr x, 2)"
      and ay: "random_triangular toy_library (3 / 2) 5 (16 / 5) 1 = (Inr y, 2)"
      and xy: "x < y"
    by blast
  have x: "x = 3 / 2 + sqrt (833 / 200)" using ax [unfolded toy_library_ward1] by simp
  have y: "y = 5 - sqrt (189 / 100)" using ay [unfolded toy_library_ward1_meant] by simp
  from th obtain x' y' where
      b: "get_cw_time toy_library CW1 CW2 CW2 1 = (x', 2)"
      and bx: "random_triangular toy_library (14 / 5) (41 / 10) (63 / 10) 1 = (Inr x', 2)"
      and by': "random_triangular toy_library (14 / 5) (63 / 10) (41 / 10) 1 = (Inr y', 2)"
      and xy': "x' < y'"
    by blast
  have x': "x' = 14 / 5 + sqrt (637 / 200)" using bx [unfolded toy_library_ward2] by simp
  have y': "y' = 63 / 10 - sqrt (231 / 100)" using by' [unfolded toy_library_ward2_meant] by simp
  have c: "get_cw_time toy_library CW1 CW2 X_ray 1 = (0, 1)" using th by simp
  show ?thesis
    using a [unfolded x] b [unfolded x'] c xy [unfolded x y] xy' [unfolded x' y']
      toy_library_ok toy_library_draw toy_library_ward1_meant toy_library_ward2_meant
    by simp
qed

text \<open>
  Claim C8. When the file can be opened and the results hold the four types,
  \<open>save_statistics\<close> appends exactly one row: overall average, standard deviation,
  then count and average of the types 1 to 4, in this order. The row follows the rows
  of an existing file, and follows the header in a file that did not exist. Every value
  other than a count is written with a comma as decimal separator.
\<close>

theorem save_statistics_row:
  assumes "writable fs filename"
    and "map_of (types res) 1 = Some e1" and "map_of (types res) 2 = Some e2"
    and "map_of (types res) 3 = Some e3" and "map_of (types res) 4 = Some e4"
  shows "\<exists>row. row =
           [Str (replace_point (format_2f (overall_avg_time res))),
            Str (replace_point (format_2f (standard_deviation res))),
            Num (count e1), Str (replace_point (format_2f (avg_time e1))),
            Num (count e2), Str (replace_point (format_2f (avg_time e2))),
            Num (count e3), Str (replace_point (format_2f (avg_time e3))),
            Num (count e4), Str (replace_point (format_2f (avg_time e4)))] \<and>
         (\<forall>s. Str s \<in> set row \<longrightarrow> comma_decimal s) \<and>
         save_statistics res filename fs =
           (Inr (), fs\<lparr>files := (files fs)(filename \<mapsto>
              (case files fs filename of None \<Rightarrow> [header] | Some rows \<Rightarrow> rows) @ [row])\<rparr>)"
  using assms
  by (auto simp: save_statistics_def build_row_def type_cells_def types_lookup_def
      format_2f_comma Let_def split: option.splits)

text \<open>The row of \<open>three_results\<close>, appended to an existing file and written to a new one.\<close>

theorem save_statistics_row_witness:
  "writable disk_with_file default_filename \<and>
   map_of (types three_results) 1 = Some \<lparr>count = 2, avg_time = 15\<rparr> \<and>
   map_of (types three_results) 2 = Some \<lparr>count = 0, avg_time = 0\<rparr> \<and>
   map_of (types three_results) 3 = Some \<lparr>count = 0, avg_time = 0\<rparr> \<and>
   map_of (types three_results) 4 = Some \<lparr>count = 1, avg_time = 30\<rparr> \<and>
   comma_decimal ''20,00'' \<and>
   files (snd (save_statistics three_results default_filename disk_with_file)) default_filename =
     Some [header, [Str ''old row''],
           [Str ''20,00'', Str ''10,00'', Num 2, Str ''15,00'', Num 0, Str ''0,00'',
            Num 0, Str ''0,00'', Num 1, Str ''30,00'']] \<and>
   writable (disk toy_world) default_filename \<and>
   files (snd (save_statistics three_results default_filename (disk toy_world))) default_filename =
     Some [header,
           [Str ''20,00'', Str ''10,00'', Num 2, Str ''15,00'', Num 0, Str ''0,00'',
            Num 0, Str ''0,00'', Num 1, Str ''30,00'']]"
  using save_statistics_row [of disk_with_file default_filename three_results
      "\<lparr>count = 2, avg_time = 15\<rparr>" "\<lparr>count = 0, avg_time = 0\<rparr>"
      "\<lparr>count = 0, avg_time = 0\<rparr>" "\<lparr>count = 1, avg_time = 30\<rparr>"]
    save_statistics_row [of "disk toy_world" default_filename three_results
      "\<lparr>count = 2, avg_time = 15\<rparr>" "\<lparr>count = 0, avg_time = 0\<rparr>"
      "\<lparr>count = 0, avg_time = 0\<rparr>" "\<lparr>count = 1, avg_time = 30\<rparr>"]
  by (simp add: disk_with_file_def toy_world_def three_results_def format_2f_def
      round_half_even_def digit_char_def replace_point_def Let_def)

text \<open>
  Claim C9. On a collection with exactly one patient, of a known type,
  \<open>calc_statistics\<close> raises ZeroDivisionError: the divisor \<open>total_patients - 1\<close>
  of the standard deviation is zero.
\<close>

theorem calc_statistics_single:
  assumes "rec_type p \<in> {1, 2, 3, 4}"
  shows "calc_statistics [p] = Inl ZeroDivisionError"
proof -
  have "valid_types [p]" using assms by (simp add: valid_types_def)
  then obtain tr where "per_type_statistics [p] = Inr tr"
    using per_type_statistics_ok by blast
  then show ?thesis
    by (simp add: calc_statistics_def py_div_def)
qed

theorem calc_statistics_single_witness:
  "rec_type \<lparr>rec_id = 0, rec_type = 4, total_time = 35\<rparr> \<in> {1, 2, 3, 4} \<and>
   calc_statistics [\<lparr>rec_id = 0, rec_type = 4, total_time = 35\<rparr>] = Inl ZeroDivisionError"
  using calc_statistics_single [of "\<lparr>rec_id = 0, rec_type = 4, total_time = 35\<rparr>"]
  by simp

text \<open>
  Claim C10. The outcome of \<open>run_simulation\<close> does not depend on the state in which
  it finds the global generator, since it seeds it with 10. So when a call succeeds, the
  next call with the same argument succeeds too and appends the same row a second time.
  The loop of the main program is two calls with no argument: with a well-behaved random
  module and a results file that can be opened, it ends with two identical rows at the
  end of the file.
\<close>

theorem rerun_same_row:
  "run_simulation rm arg (w\<lparr>global_rng := g\<rparr>) = run_simulation rm arg w \<and>
   (\<forall>v w1. run_simulation rm arg w = (Inr v, w1) \<longrightarrow>
      (\<exists>rows row w2.
         files (disk w1) default_filename = Some (rows @ [row]) \<and>
         run_simulation rm arg w1 = (Inr None, w2) \<and>
         files (disk w2) default_filename = Some (rows @ [row, row]))) \<and>
   (well_behaved rm \<and> writable (disk w) default_filename \<longrightarrow>
      (\<exists>rows row w2. main_loop rm w = (Inr (), w2) \<and>
         files (disk w2) default_filename = Some (rows @ [row, row])))"
proof (intro conjI allI impI)
  show "run_simulation rm arg (w\<lparr>global_rng := g\<rparr>) = run_simulation rm arg w"
    by (rule run_simulation_rng)
next
  fix v w1 assume "run_simulation rm arg w = (Inr v, w1)"
  then show "\<exists>rows row w2.
         files (disk w1) default_filename = Some (rows @ [row]) \<and>
         run_simulation rm arg w1 = (Inr None, w2) \<and>
         files (disk w2) default_filename = Some (rows @ [row, row])"
    by (rule run_simulation_again)
next
  assume "well_behaved rm \<and> writable (disk w) default_filename"
  then show "\<exists>rows row w2. main_loop rm w = (Inr (), w2) \<and>
         files (disk w2) default_filename = Some (rows @ [row, row])"
    using main_loop_total by blast
qed

text \<open>
  Two runs with three patients, and the loop of the main program with its 250 patients,
  on the small random module.
\<close>

theorem rerun_same_row_witness:
  "fst (run_simulation toy_random (Some 3) toy_world) = Inr None \<and>
   (\<exists>rows row.
      files (disk (snd (run_simulation toy_random (Some 3) toy_world))) default_filename
        = Some (rows @ [row]) \<and>
      fst (run_simulation toy_random (Some 3) (snd (run_simulation toy_random (Some 3) toy_world)))
        = Inr None \<and>
      files (disk (snd (run_simulation toy_random (Some 3)
                (snd (run_simulation toy_random (Some 3) toy_world))))) default_filename
        = Some (rows @ [row, row])) \<and>
   well_behaved toy_random \<and> writable (disk toy_world) default_filename \<and>
   fst (main_loop toy_random toy_world) = Inr () \<and>
   (\<exists>rows row. files (disk (snd (main_loop toy_random toy_world))) default_filename
        = Some (rows @ [row, row]))"
proof -
  note th = rerun_same_row [where rm = toy_random and arg = "Some 3" and w = toy_world]
  obtain w1 where w1: "run_simulation toy_random (Some 3) toy_world = (Inr None, w1)"
    using toy_run_3 by (cases "run_simulation toy_random (Some 3) toy_world") auto
  have "\<exists>rows row w2.
    files (disk w1) default_filename = Some (rows @ [row]) \<and>
    run_simulation toy_random (Some 3) w1 = (Inr None, w2) \<and>
    files (disk w2) default_filename = Some (rows @ [row, row])"
    by (rule th [THEN conjunct2, THEN conjunct1, rule_format, OF w1])
  then obtain rows row w2 where a:
    "files (disk w1) default_filename = Some (rows @ [row])"
    "run_simulation toy_random (Some 3) w1 = (Inr None, w2)"
    "files (disk w2) default_filename = Some (rows @ [row, row])"
    by (elim exE conjE)
  have "\<exists>rows row w2. main_loop toy_random toy_world = (Inr (), w2) \<and>
         files (disk w2) default_filename = Some (rows @ [row, row])"
    using th [THEN conjunct2, THEN conjunct2] toy_well_behaved toy_writable by simp
  then obtain rows' row' w2' where b:
    "main_loop toy_random toy_world = (Inr (), w2')"
    "files (disk w2') default_filename = Some (rows' @ [row', row'])"
    by (elim exE conjE)
  have first: "\<exists>rows row.
      files (disk (snd (run_simulation toy_random (Some 3) toy_world))) default_filename
        = Some (rows @ [row]) \<and>
      fst (run_simulation toy_random (Some 3) (snd (run_simulation toy_random (Some 3) toy_world)))
        = Inr None \<and>
      files (disk (snd (run_simulation toy_random (Some 3)
                (snd (run_simulation toy_random (Some 3) toy_world))))) default_filename
        = Some (rows @ [row, row])"
    using w1 a by (intro exI [of _ rows] exI [of _ row]) simp
  have second: "\<exists>rows row. files (disk (snd (main_loop toy_random toy_world))) default_filename
        = Some (rows @ [row, row])"
    using b by (intro exI [of _ rows'] exI [of _ row']) simp
  show ?thesis
    using w1 first second b(1) toy_well_behaved toy_writable by simp
qed


end
